theory Spec2Isabelle
  imports Main "HOL-Library.Word"
begin

section \<open>Data model of xiterator.hpp\<close>

text \<open>
  \<open>size_type\<close> is the unsigned 64-bit \<open>std::size_t\<close>: index entries, extents, strides
  and step counts wrap around modulo \<open>2 ^ 64\<close>.  The cursor of a strided stepper is the
  container's random-access iterator; it is kept as its linear position in the storage,
  with the same wrapping arithmetic.  Dimension numbers and the rank-alignment offset only
  ever select an entry of a vector and are subtracted under the guard \<open>dim \<ge> offset\<close>, so
  they are natural numbers.  Pointers are addresses into a store; a null or dangling
  pointer has no entry.  Every out-of-range \<open>operator[]\<close> and every dereference of a
  pointer without referent is undefined behaviour in the source and \<open>None\<close> here.
\<close>

type_synonym size_type = "64 word"
type_synonym cursor = "64 word"
type_synonym ptr = nat

text \<open>
  Modelled from the spec: the container type behind \<open>xstepper<C>\<close>, which the source only
  uses through \<open>strides()\<close>, \<open>backstrides()\<close>, \<open>end()\<close> and the dereference of its
  iterator; \<open>shape()\<close> belongs to the same interface.  \<open>c_data\<close> is the linear storage
  the cursor walks over.
\<close>

record container =
  c_shape :: "size_type list"
  c_strides :: "size_type list"
  c_backstrides :: "size_type list"
  c_end :: cursor
  c_data :: "int list"

text \<open>
  Modelled from the spec: the expression type behind \<open>xindexed_stepper<E, is_const>\<close>,
  used through \<open>shape()\<close> and \<open>element(first, last)\<close>.
\<close>

record expression =
  e_shape :: "size_type list"
  e_element :: "size_type list \<Rightarrow> int"

type_synonym cheap = "ptr \<Rightarrow> container option"
type_synonym eheap = "ptr \<Rightarrow> expression option"

record xstepper =
  xs_p_c :: ptr
  xs_m_it :: cursor
  xs_m_offset :: nat

record xindexed_stepper =
  xi_p_e :: ptr
  xi_m_index :: "size_type list"
  xi_m_offset :: nat

section \<open>The strided stepper\<close>

definition xstepper_ctor :: "ptr \<Rightarrow> cursor \<Rightarrow> nat \<Rightarrow> xstepper" where
  "xstepper_ctor c it offset = \<lparr>xs_p_c = c, xs_m_it = it, xs_m_offset = offset\<rparr>"

definition xstepper_deref :: "cheap \<Rightarrow> xstepper \<Rightarrow> int option" where
  "xstepper_deref h s =
     (case h (xs_p_c s) of
        None \<Rightarrow> None
      | Some c \<Rightarrow>
          if unat (xs_m_it s) < length (c_data c) then Some (c_data c ! unat (xs_m_it s))
          else None)"

definition xstepper_step :: "cheap \<Rightarrow> xstepper \<Rightarrow> nat \<Rightarrow> size_type \<Rightarrow> xstepper option" where
  "xstepper_step h s dim n =
     (if dim \<ge> xs_m_offset s then
        (case h (xs_p_c s) of
           None \<Rightarrow> None
         | Some c \<Rightarrow>
             if dim - xs_m_offset s < length (c_strides c)
             then Some (s\<lparr>xs_m_it := xs_m_it s + n * (c_strides c ! (dim - xs_m_offset s))\<rparr>)
             else None)
      else Some s)"

definition xstepper_step_back :: "cheap \<Rightarrow> xstepper \<Rightarrow> nat \<Rightarrow> size_type \<Rightarrow> xstepper option" where
  "xstepper_step_back h s dim n =
     (if dim \<ge> xs_m_offset s then
        (case h (xs_p_c s) of
           None \<Rightarrow> None
         | Some c \<Rightarrow>
             if dim - xs_m_offset s < length (c_strides c)
             then Some (s\<lparr>xs_m_it := xs_m_it s - n * (c_strides c ! (dim - xs_m_offset s))\<rparr>)
             else None)
      else Some s)"

definition xstepper_reset :: "cheap \<Rightarrow> xstepper \<Rightarrow> nat \<Rightarrow> xstepper option" where
  "xstepper_reset h s dim =
     (if dim \<ge> xs_m_offset s then
        (case h (xs_p_c s) of
           None \<Rightarrow> None
         | Some c \<Rightarrow>
             if dim - xs_m_offset s < length (c_backstrides c)
             then Some (s\<lparr>xs_m_it := xs_m_it s - c_backstrides c ! (dim - xs_m_offset s)\<rparr>)
             else None)
      else Some s)"

definition xstepper_to_end :: "cheap \<Rightarrow> xstepper \<Rightarrow> xstepper option" where
  "xstepper_to_end h s =
     (case h (xs_p_c s) of
        None \<Rightarrow> None
      | Some c \<Rightarrow> Some (s\<lparr>xs_m_it := c_end c\<rparr>))"

definition xstepper_equal :: "xstepper \<Rightarrow> xstepper \<Rightarrow> bool" where
  "xstepper_equal lhs rhs \<longleftrightarrow>
     xs_p_c lhs = xs_p_c rhs \<and> xs_m_it lhs = xs_m_it rhs \<and> xs_m_offset lhs = xs_m_offset rhs"

section \<open>The indexed stepper\<close>

text \<open>
  The constructor sizes the index to the expression's own rank
  (\<open>make_sequence<index_type>(e->shape().size(), size_type(0))\<close>) and moves to the end
  when asked to.
\<close>

definition xindexed_stepper_to_end :: "eheap \<Rightarrow> xindexed_stepper \<Rightarrow> xindexed_stepper option" where
  "xindexed_stepper_to_end h s =
     (case h (xi_p_e s) of
        None \<Rightarrow> None
      | Some e \<Rightarrow> Some (s\<lparr>xi_m_index := e_shape e\<rparr>))"

definition xindexed_stepper_ctor :: "eheap \<Rightarrow> ptr \<Rightarrow> nat \<Rightarrow> bool \<Rightarrow> xindexed_stepper option" where
  "xindexed_stepper_ctor h e offset end =
     (case h e of
        None \<Rightarrow> None
      | Some ex \<Rightarrow>
          let s = \<lparr>xi_p_e = e, xi_m_index = replicate (length (e_shape ex)) 0, xi_m_offset = offset\<rparr>
          in if end then xindexed_stepper_to_end h s else Some s)"

definition xindexed_stepper_deref :: "eheap \<Rightarrow> xindexed_stepper \<Rightarrow> int option" where
  "xindexed_stepper_deref h s =
     (case h (xi_p_e s) of
        None \<Rightarrow> None
      | Some e \<Rightarrow> Some (e_element e (xi_m_index s)))"

definition xindexed_stepper_step :: "xindexed_stepper \<Rightarrow> nat \<Rightarrow> size_type \<Rightarrow> xindexed_stepper option" where
  "xindexed_stepper_step s dim n =
     (if dim \<ge> xi_m_offset s then
        (if dim - xi_m_offset s < length (xi_m_index s)
         then Some (s\<lparr>xi_m_index := (xi_m_index s)
                        [dim - xi_m_offset s := xi_m_index s ! (dim - xi_m_offset s) + n]\<rparr>)
         else None)
      else Some s)"

definition xindexed_stepper_step_back :: "xindexed_stepper \<Rightarrow> nat \<Rightarrow> size_type \<Rightarrow> xindexed_stepper option" where
  "xindexed_stepper_step_back s dim n =
     (if dim \<ge> xi_m_offset s then
        (if dim - xi_m_offset s < length (xi_m_index s)
         then Some (s\<lparr>xi_m_index := (xi_m_index s)
                        [dim - xi_m_offset s := xi_m_index s ! (dim - xi_m_offset s) - n]\<rparr>)
         else None)
      else Some s)"

definition xindexed_stepper_reset :: "xindexed_stepper \<Rightarrow> nat \<Rightarrow> xindexed_stepper option" where
  "xindexed_stepper_reset s dim =
     (if dim \<ge> xi_m_offset s then
        (if dim - xi_m_offset s < length (xi_m_index s)
         then Some (s\<lparr>xi_m_index := (xi_m_index s)[dim - xi_m_offset s := 0]\<rparr>)
         else None)
      else Some s)"

definition xindexed_stepper_equal :: "xindexed_stepper \<Rightarrow> xindexed_stepper \<Rightarrow> bool" where
  "xindexed_stepper_equal lhs rhs \<longleftrightarrow>
     xi_p_e lhs = xi_p_e rhs \<and> xi_m_index lhs = xi_m_index rhs \<and> xi_m_offset lhs = xi_m_offset rhs"

section \<open>The odometer\<close>

text \<open>
  \<open>increment_stepper\<close> is a template over the stepper type \<open>S\<close>; the operations it and
  \<open>xiterator\<close> require of \<open>S\<close> are passed as a record.  \<open>op_step s i\<close> is \<open>s.step(i)\<close> with
  the default count \<open>n = 1\<close>.
\<close>

record 's stepper_ops =
  op_deref :: "'s \<Rightarrow> int option"
  op_step :: "'s \<Rightarrow> nat \<Rightarrow> 's option"
  op_reset :: "'s \<Rightarrow> nat \<Rightarrow> 's option"
  op_to_end :: "'s \<Rightarrow> 's option"
  op_equal :: "'s \<Rightarrow> 's \<Rightarrow> bool"

definition xstepper_ops :: "cheap \<Rightarrow> xstepper stepper_ops" where
  "xstepper_ops h =
     \<lparr>op_deref = xstepper_deref h,
      op_step = (\<lambda>s i. xstepper_step h s i 1),
      op_reset = xstepper_reset h,
      op_to_end = xstepper_to_end h,
      op_equal = xstepper_equal\<rparr>"

definition xindexed_stepper_ops :: "eheap \<Rightarrow> xindexed_stepper stepper_ops" where
  "xindexed_stepper_ops h =
     \<lparr>op_deref = xindexed_stepper_deref h,
      op_step = (\<lambda>s i. xindexed_stepper_step s i 1),
      op_reset = xindexed_stepper_reset,
      op_to_end = xindexed_stepper_to_end h,
      op_equal = xindexed_stepper_equal\<rparr>"

text \<open>
  The loop \<open>while (i != 0) { --i; ... }\<close>: the first argument is the value of \<open>i\<close> at the
  loop test.  Leaving the loop through its test means \<open>i == 0\<close>, so \<open>to_end()\<close> runs;
  the \<open>return\<close> after \<open>step(i)\<close> skips it.
\<close>

fun increment_loop ::
  "'s stepper_ops \<Rightarrow> nat \<Rightarrow> 's \<Rightarrow> size_type list \<Rightarrow> size_type list \<Rightarrow> ('s \<times> size_type list) option"
where
  "increment_loop ops 0 stepper index shape =
     (case op_to_end ops stepper of
        None \<Rightarrow> None
      | Some s \<Rightarrow> Some (s, index))"
| "increment_loop ops (Suc i) stepper index shape =
     (if i < length index \<and> i < length shape then
        (let index1 = index[i := index ! i + 1] in
         if index1 ! i \<noteq> shape ! i then
           (case op_step ops stepper i of
              None \<Rightarrow> None
            | Some s \<Rightarrow> Some (s, index1))
         else if i \<noteq> 0 then
           (case op_reset ops stepper i of
              None \<Rightarrow> None
            | Some s \<Rightarrow> increment_loop ops i s (index1[i := 0]) shape)
         else increment_loop ops i stepper index1 shape)
      else None)"

definition increment_stepper ::
  "'s stepper_ops \<Rightarrow> 's \<Rightarrow> size_type list \<Rightarrow> size_type list \<Rightarrow> ('s \<times> size_type list) option"
where
  "increment_stepper ops stepper index shape = increment_loop ops (length index) stepper index shape"

section \<open>The iterator adaptor\<close>

text \<open>
  \<open>it_shape\<close> is what \<open>shape_storage::shape()\<close> returns, in the owning and in the
  referencing variant alike.
\<close>

record 's xiterator =
  it_shape :: "size_type list"
  it_m_it :: 's
  it_m_index :: "size_type list"

definition xiterator_ctor :: "'s \<Rightarrow> size_type list \<Rightarrow> 's xiterator" where
  "xiterator_ctor it shape =
     \<lparr>it_shape = shape, it_m_it = it, it_m_index = replicate (length shape) 0\<rparr>"

definition xiterator_incr :: "'s stepper_ops \<Rightarrow> 's xiterator \<Rightarrow> 's xiterator option" where
  "xiterator_incr ops it =
     (case increment_stepper ops (it_m_it it) (it_m_index it) (it_shape it) of
        None \<Rightarrow> None
      | Some (s, idx) \<Rightarrow> Some (it\<lparr>it_m_it := s, it_m_index := idx\<rparr>))"

definition xiterator_deref :: "'s stepper_ops \<Rightarrow> 's xiterator \<Rightarrow> int option" where
  "xiterator_deref ops it = op_deref ops (it_m_it it)"

definition xiterator_equal :: "'s stepper_ops \<Rightarrow> 's xiterator \<Rightarrow> 's xiterator \<Rightarrow> bool" where
  "xiterator_equal ops lhs rhs \<longleftrightarrow>
     op_equal ops (it_m_it lhs) (it_m_it rhs) \<and> it_shape lhs = it_shape rhs"

section \<open>Repeating a stepper operation\<close>

text \<open>\<open>repeat_op k f s\<close> calls the operation \<open>f\<close> on the stepper \<open>k\<close> times in a row.\<close>

fun repeat_op :: "nat \<Rightarrow> ('s \<Rightarrow> 's option) \<Rightarrow> 's \<Rightarrow> 's option" where
  "repeat_op 0 f s = Some s"
| "repeat_op (Suc k) f s = (case f s of None \<Rightarrow> None | Some t \<Rightarrow> repeat_op k f t)"

section \<open>Observing the calls the odometer makes\<close>

datatype call = Step nat | Reset nat | ToEnd

fun apply_call :: "'s stepper_ops \<Rightarrow> call \<Rightarrow> 's \<Rightarrow> 's option" where
  "apply_call ops (Step i) s = op_step ops s i"
| "apply_call ops (Reset i) s = op_reset ops s i"
| "apply_call ops ToEnd s = op_to_end ops s"

fun run_calls :: "'s stepper_ops \<Rightarrow> call list \<Rightarrow> 's \<Rightarrow> 's option" where
  "run_calls ops [] s = Some s"
| "run_calls ops (c # cs) s = (case apply_call ops c s of None \<Rightarrow> None | Some t \<Rightarrow> run_calls ops cs t)"

text \<open>A stepper that only records, in order, the calls made on it.\<close>

definition log_ops :: "call list stepper_ops" where
  "log_ops =
     \<lparr>op_deref = (\<lambda>s. None),
      op_step = (\<lambda>s i. Some (s @ [Step i])),
      op_reset = (\<lambda>s i. Some (s @ [Reset i])),
      op_to_end = (\<lambda>s. Some (s @ [ToEnd])),
      op_equal = (=)\<rparr>"

section \<open>Row-major order\<close>

text \<open>
  An index is a valid position of a shape when it has the shape's rank and every entry is
  below its extent.  \<open>carry_count\<close> is the number of trailing dimensions that stand at
  their last coordinate.  The row-major successor adds one to the innermost dimension that
  does not carry and zeroes every dimension after it.
\<close>

definition valid_index :: "size_type list \<Rightarrow> size_type list \<Rightarrow> bool" where
  "valid_index shape index \<longleftrightarrow> list_all2 (<) index shape"

definition carry_count :: "size_type list \<Rightarrow> size_type list \<Rightarrow> nat" where
  "carry_count shape index = length (takeWhile (\<lambda>(x, e). x + 1 = e) (rev (zip index shape)))"

definition successor_index :: "size_type list \<Rightarrow> size_type list \<Rightarrow> size_type list" where
  "successor_index shape index =
     (let n = length index; k = carry_count shape index
      in take (n - k - 1) index @ [index ! (n - k - 1) + 1] @ replicate k 0)"

text \<open>The linear position of an index in row-major order (Horner scheme over the extents).\<close>

definition ravel :: "size_type list \<Rightarrow> size_type list \<Rightarrow> nat" where
  "ravel shape index = foldl (\<lambda>acc (x, e). acc * unat e + unat x) 0 (zip index shape)"

definition extent_product :: "size_type list \<Rightarrow> nat" where
  "extent_product shape = prod_list (map unat shape)"

section \<open>Traversals\<close>

text \<open>
  The client loop \<open>for (; it != stop; ++it) use(*it);\<close> with a bound on the number of
  rounds: the result lists the iterator at each dereference, and is \<open>None\<close> when the
  bound is reached before \<open>it == stop\<close> or when a step is undefined.
\<close>

fun traverse :: "'s stepper_ops \<Rightarrow> nat \<Rightarrow> 's xiterator \<Rightarrow> 's xiterator \<Rightarrow> 's xiterator list option" where
  "traverse ops 0 it stop = (if xiterator_equal ops it stop then Some [] else None)"
| "traverse ops (Suc fuel) it stop =
     (if xiterator_equal ops it stop then Some []
      else (case xiterator_deref ops it of
              None \<Rightarrow> None
            | Some v \<Rightarrow>
                (case xiterator_incr ops it of
                   None \<Rightarrow> None
                 | Some it' \<Rightarrow> map_option ((#) it) (traverse ops fuel it' stop))))"

text \<open>The indices an iterator shows over \<open>k\<close> successive increments, the current one first.\<close>

fun index_sequence :: "'s stepper_ops \<Rightarrow> nat \<Rightarrow> 's xiterator \<Rightarrow> size_type list list option" where
  "index_sequence ops 0 it = Some []"
| "index_sequence ops (Suc k) it =
     (case xiterator_incr ops it of
        None \<Rightarrow> None
      | Some it' \<Rightarrow> map_option ((#) (it_m_index it)) (index_sequence ops k it'))"

section \<open>Concrete containers and expressions\<close>

text \<open>A 3 by 3 row-major container at address 1: strides \<open>[3,1]\<close>, backstrides \<open>[6,2]\<close>.\<close>

definition grid33 :: container where
  "grid33 = \<lparr>c_shape = [3, 3], c_strides = [3, 1], c_backstrides = [6, 2], c_end = 9,
             c_data = [10, 11, 12, 13, 14, 15, 16, 17, 18]\<rparr>"

text \<open>A one-element container of shape \<open>[1]\<close> at address 2.\<close>

definition single1 :: container where
  "single1 = \<lparr>c_shape = [1], c_strides = [1], c_backstrides = [0], c_end = 1, c_data = [7]\<rparr>"

text \<open>A rank-0 container holding one element at address 3.\<close>

definition scalar0 :: container where
  "scalar0 = \<lparr>c_shape = [], c_strides = [], c_backstrides = [], c_end = 1, c_data = [5]\<rparr>"

definition cstore :: cheap where
  "cstore p = (if p = 1 then Some grid33 else if p = 2 then Some single1
               else if p = 3 then Some scalar0 else None)"

text \<open>Expressions: a 2 by 3 one at address 1, a rank-0 one at address 2, a 2 by 0 one at address 3.\<close>

definition expr23 :: expression where
  "expr23 = \<lparr>e_shape = [2, 3], e_element = (\<lambda>idx. sum_list (map sint idx))\<rparr>"

definition expr_scalar :: expression where
  "expr_scalar = \<lparr>e_shape = [], e_element = (\<lambda>idx. 42)\<rparr>"

definition expr20 :: expression where
  "expr20 = \<lparr>e_shape = [2, 0], e_element = (\<lambda>idx. 0)\<rparr>"

definition estore :: eheap where
  "estore p = (if p = 1 then Some expr23 else if p = 2 then Some expr_scalar
               else if p = 3 then Some expr20 else None)"

section \<open>Auxiliary notions for the odometer\<close>

text \<open>
  \<open>carries m shape index\<close> counts the carrying dimensions directly below dimension \<open>m\<close>;
  \<open>odometer_calls\<close> and \<open>odometer_index\<close> are the calls one increment makes on its
  stepper, in order, and the index it leaves behind: a step on the innermost dimension that
  does not carry after a reset of each dimension behind it, or, when every dimension
  carries, the resets of all dimensions but dimension 0 followed by \<open>to_end\<close>.
\<close>

definition carries :: "nat \<Rightarrow> size_type list \<Rightarrow> size_type list \<Rightarrow> nat" where
  "carries m shape index = length (takeWhile (\<lambda>(x, e). x + 1 = e) (rev (take m (zip index shape))))"

definition carry_P :: "size_type \<times> size_type \<Rightarrow> bool" where
  "carry_P = (\<lambda>(x, e). x + 1 = e)"

abbreviation horner :: "nat \<Rightarrow> size_type \<times> size_type \<Rightarrow> nat" where
  "horner \<equiv> (\<lambda>acc (x, e). acc * unat e + unat x)"

definition odometer_calls :: "size_type list \<Rightarrow> size_type list \<Rightarrow> call list" where
  "odometer_calls shape index =
     (let n = length index; k = carry_count shape index
      in if k < n then map Reset (rev [n - k..<n]) @ [Step (n - k - 1)]
         else map Reset (rev [1..<n]) @ [ToEnd])"

definition odometer_index :: "size_type list \<Rightarrow> size_type list \<Rightarrow> size_type list" where
  "odometer_index shape index =
     (if carry_count shape index < length index then successor_index shape index
      else (case shape of [] \<Rightarrow> [] | e # es \<Rightarrow> e # replicate (length es) 0))"

section \<open>Positions of a traversal\<close>

text \<open>
  \<open>dot index strides\<close> is the storage offset of an index under the given strides, and
  \<open>pad_strides offset strides\<close> are the strides as the iteration shape sees them: the
  dimensions below the offset, which the container does not have, move by 0.
  \<open>strided_layout c offset shape\<close> says that the container has the dimensions of the
  shape from the offset on and that \<open>backstride[i] = stride[i] * (shape[i] - 1)\<close> on
  them.  \<open>strided_position\<close> and \<open>indexed_position\<close> are the iterators that stand at a
  given index: the cursor of the strided stepper is a start cursor plus the index's
  storage offset, the index of the indexed stepper is the iterator's index from the offset
  on.
\<close>

definition dot :: "size_type list \<Rightarrow> size_type list \<Rightarrow> size_type" where
  "dot xs ys = sum_list (map2 (*) xs ys)"

definition pad_strides :: "nat \<Rightarrow> size_type list \<Rightarrow> size_type list" where
  "pad_strides offset strides = replicate offset 0 @ strides"

definition strided_layout :: "container \<Rightarrow> nat \<Rightarrow> size_type list \<Rightarrow> bool" where
  "strided_layout c offset shape \<longleftrightarrow>
     offset \<le> length shape \<and>
     length (c_strides c) = length shape - offset \<and>
     c_backstrides c = map2 (\<lambda>s d. s * (d - 1)) (c_strides c) (drop offset shape)"

definition strided_position ::
  "ptr \<Rightarrow> cursor \<Rightarrow> container \<Rightarrow> nat \<Rightarrow> size_type list \<Rightarrow> size_type list \<Rightarrow> xstepper xiterator"
where
  "strided_position p start c offset shape index =
     \<lparr>it_shape = shape,
      it_m_it = \<lparr>xs_p_c = p, xs_m_it = start + dot index (pad_strides offset (c_strides c)),
                 xs_m_offset = offset\<rparr>,
      it_m_index = index\<rparr>"

definition indexed_position ::
  "ptr \<Rightarrow> nat \<Rightarrow> size_type list \<Rightarrow> size_type list \<Rightarrow> xindexed_stepper xiterator"
where
  "indexed_position p offset shape index =
     \<lparr>it_shape = shape,
      it_m_it = \<lparr>xi_p_e = p, xi_m_index = drop offset index, xi_m_offset = offset\<rparr>,
      it_m_index = index\<rparr>"

section \<open>Operands that are broadcast\<close>

text \<open>
  A three-element container of shape \<open>[3]\<close> at address 1 and an empty one of shape \<open>[0]\<close>
  at address 2; an expression of shape \<open>[3]\<close> at address 1.
\<close>

definition row3 :: container where
  "row3 = \<lparr>c_shape = [3], c_strides = [1], c_backstrides = [2], c_end = 3, c_data = [20, 21, 22]\<rparr>"

definition empty0 :: container where
  "empty0 = \<lparr>c_shape = [0], c_strides = [1], c_backstrides = [- 1], c_end = 0, c_data = []\<rparr>"

definition bstore :: cheap where
  "bstore p = (if p = 1 then Some row3 else if p = 2 then Some empty0 else None)"

definition expr3 :: expression where
  "expr3 = \<lparr>e_shape = [3], e_element = (\<lambda>idx. sum_list (map sint idx))\<rparr>"

definition bestore :: eheap where
  "bestore p = (if p = 1 then Some expr3 else None)"

section \<open>Auxiliary lemmas\<close>

lemma repeat_op_id: "repeat_op k (\<lambda>s. Some s) s = Some s"
  by (induction k) simp_all

lemma repeat_xstepper_step:
  assumes "xs_m_offset s \<le> dim" "h (xs_p_c s) = Some c" "dim - xs_m_offset s < length (c_strides c)"
  shows "repeat_op k (\<lambda>t. xstepper_step h t dim 1) s =
         Some (s\<lparr>xs_m_it := xs_m_it s + of_nat k * (c_strides c ! (dim - xs_m_offset s))\<rparr>)"
  using assms
proof (induction k arbitrary: s)
  case 0
  then show ?case by simp
next
  case (Suc k)
  let ?t = "s\<lparr>xs_m_it := xs_m_it s + 1 * (c_strides c ! (dim - xs_m_offset s))\<rparr>"
  have st: "xstepper_step h s dim 1 = Some ?t"
    using Suc.prems by (simp add: xstepper_step_def)
  have "repeat_op k (\<lambda>t. xstepper_step h t dim 1) ?t =
        Some (?t\<lparr>xs_m_it := xs_m_it ?t + of_nat k * (c_strides c ! (dim - xs_m_offset ?t))\<rparr>)"
    by (rule Suc.IH) (use Suc.prems in simp_all)
  then show ?case using st by (simp add: algebra_simps)
qed

lemma repeat_xstepper_step_back:
  assumes "xs_m_offset s \<le> dim" "h (xs_p_c s) = Some c" "dim - xs_m_offset s < length (c_strides c)"
  shows "repeat_op k (\<lambda>t. xstepper_step_back h t dim 1) s =
         Some (s\<lparr>xs_m_it := xs_m_it s - of_nat k * (c_strides c ! (dim - xs_m_offset s))\<rparr>)"
  using assms
proof (induction k arbitrary: s)
  case 0
  then show ?case by simp
next
  case (Suc k)
  let ?t = "s\<lparr>xs_m_it := xs_m_it s - 1 * (c_strides c ! (dim - xs_m_offset s))\<rparr>"
  have st: "xstepper_step_back h s dim 1 = Some ?t"
    using Suc.prems by (simp add: xstepper_step_back_def)
  have "repeat_op k (\<lambda>t. xstepper_step_back h t dim 1) ?t =
        Some (?t\<lparr>xs_m_it := xs_m_it ?t - of_nat k * (c_strides c ! (dim - xs_m_offset ?t))\<rparr>)"
    by (rule Suc.IH) (use Suc.prems in simp_all)
  then show ?case using st by (simp add: algebra_simps)
qed

lemma carries_0: "carries 0 shp idx = 0"
  by (simp add: carries_def)

lemma carries_Suc:
  assumes "m < length idx" "m < length shp"
  shows "carries (Suc m) shp idx = (if idx ! m + 1 = shp ! m then Suc (carries m shp idx) else 0)"
  using assms by (simp add: carries_def take_Suc_conv_app_nth)

lemma carries_le: "carries m shp idx \<le> m"
proof -
  have "carries m shp idx \<le> length (rev (take m (zip idx shp)))"
    unfolding carries_def by (rule length_takeWhile_le)
  then show ?thesis by simp
qed

lemma carries_update: "m \<le> j \<Longrightarrow> carries m shp (idx[j := v]) = carries m shp idx"
  by (simp add: carries_def take_zip)

lemma run_calls_append:
  "run_calls ops (cs @ ds) s = (case run_calls ops cs s of None \<Rightarrow> None | Some t \<Rightarrow> run_calls ops ds t)"
  by (induction cs arbitrary: s) (simp_all split: option.splits)


lemma rev_upt_Suc_map: "a \<le> m \<Longrightarrow> map f (rev [a..<Suc m]) = f m # map f (rev [a..<m])"
  by simp

lemma increment_loop_Suc:
  assumes "i < length index" "i < length shape"
  shows "increment_loop ops (Suc i) stepper index shape =
     (if index ! i + 1 \<noteq> shape ! i then
        (case op_step ops stepper i of None \<Rightarrow> None | Some s \<Rightarrow> Some (s, index[i := index ! i + 1]))
      else if i \<noteq> 0 then
        (case op_reset ops stepper i of None \<Rightarrow> None | Some s \<Rightarrow> increment_loop ops i s (index[i := 0]) shape)
      else increment_loop ops i stepper (index[i := index ! i + 1]) shape)"
  using assms by (simp add: Let_def cong: option.case_cong)

lemma increment_loop_spec:
  assumes "m \<le> length idx" "length idx = length shp"
  shows "increment_loop ops m st idx shp =
     (if carries m shp idx < m then
        map_option (\<lambda>s. (s, take (m - carries m shp idx - 1) idx
                            @ [idx ! (m - carries m shp idx - 1) + 1]
                            @ replicate (carries m shp idx) 0 @ drop m idx))
          (run_calls ops (map Reset (rev [m - carries m shp idx..<m]) @ [Step (m - carries m shp idx - 1)]) st)
      else
        map_option (\<lambda>s. (s, (if m = 0 then [] else shp ! 0 # replicate (m - 1) 0) @ drop m idx))
          (run_calls ops (map Reset (rev [1..<m]) @ [ToEnd]) st))"
  using assms
proof (induction m arbitrary: st idx)
  case 0
  then show ?case by (simp add: carries_0 split: option.splits)
next
  case (Suc m)
  have m: "m < length idx" "m < length shp" using Suc.prems by simp_all
  note cS = carries_Suc [OF m]
  show ?case
  proof (cases "idx ! m + 1 = shp ! m")
    case False
    then show ?thesis using m
      by (simp add: increment_loop_Suc cS upd_conv_take_nth_drop del: increment_loop.simps(2)
               split: option.splits)
  next
    case carry: True
    show ?thesis
    proof (cases "m = 0")
      case True
      then show ?thesis using m carry cS
        by (simp add: increment_loop_Suc carries_0 upd_conv_take_nth_drop del: increment_loop.simps(2)
                 split: option.splits)
    next
      case False
      let ?idx = "idx[m := 0]"
      let ?k = "carries m shp idx"
      have k: "carries m shp ?idx = ?k" by (simp add: carries_update)
      have kle: "?k \<le> m" by (rule carries_le)
      have IH: "increment_loop ops m s ?idx shp =
        (if ?k < m then
          map_option (\<lambda>s. (s, take (m - ?k - 1) ?idx @ [?idx ! (m - ?k - 1) + 1]
                            @ replicate ?k 0 @ drop m ?idx))
            (run_calls ops (map Reset (rev [m - ?k..<m]) @ [Step (m - ?k - 1)]) s)
        else
          map_option (\<lambda>s. (s, (if m = 0 then [] else shp ! 0 # replicate (m - 1) 0) @ drop m ?idx))
            (run_calls ops (map Reset (rev [1..<m]) @ [ToEnd]) s))" for s
        using Suc.IH [of ?idx s] Suc.prems by (simp add: k)
      have dr: "drop m ?idx = 0 # drop (Suc m) idx"
        using m by (simp add: upd_conv_take_nth_drop)
      have rp: "replicate n (0::size_type) @ 0 # xs = replicate (Suc n) 0 @ xs" for n xs
        by (simp add: replicate_app_Cons_same)
      have lhs: "increment_loop ops (Suc m) st idx shp =
                 (case op_reset ops st m of None \<Rightarrow> None | Some s \<Rightarrow> increment_loop ops m s ?idx shp)"
        using m carry False by (simp add: increment_loop_Suc del: increment_loop.simps(2))
      show ?thesis
      proof (cases "?k < m")
        case True
        then have t1: "take (m - ?k - 1) ?idx = take (m - ?k - 1) idx"
          and t2: "?idx ! (m - ?k - 1) = idx ! (m - ?k - 1)" by simp_all
        have r: "map Reset (rev [Suc m - Suc ?k..<Suc m]) = Reset m # map Reset (rev [m - ?k..<m])"
          using kle by simp
        show ?thesis
          unfolding lhs IH
          using True carry
          by (simp only: cS if_True t1 t2 dr rp r diff_Suc_Suc Suc_less_eq)
             (simp split: option.splits)
      next
        case nk: False
        then have ke: "?k = m" using kle by simp
        have r: "map Reset (rev [Suc 0..<Suc m]) = Reset m # map Reset (rev [Suc 0..<m])"
          using False by simp
        have rp2: "replicate (m - Suc 0) 0 @ (0::size_type) # xs = replicate m 0 @ xs" for xs
          using False rp [of "m - 1" xs] by simp
        show ?thesis
          unfolding lhs IH
          using nk carry False ke
          by (simp add: cS dr r rp2 del: upt_Suc split: option.splits)
      qed
    qed
  qed
qed

lemma carries_length: "length idx = length shp \<Longrightarrow> carries (length idx) shp idx = carry_count shp idx"
  by (simp add: carries_def carry_count_def)

lemma carry_count_alt: "carry_count shp idx = length (takeWhile carry_P (rev (zip idx shp)))"
  by (simp add: carry_count_def carry_P_def)

lemma carry_count_le: "length idx = length shp \<Longrightarrow> carry_count shp idx \<le> length idx"
  using carries_le [of "length idx" shp idx] carries_length [of idx shp] by simp

text \<open>The trailing carry_count dimensions carry; the one before does not.\<close>
lemma carry_count_tail:
  assumes len: "length idx = length shp" and i: "length idx - carry_count shp idx \<le> i" "i < length idx"
  shows "idx ! i + 1 = shp ! i"
proof -
  let ?zs = "zip idx shp"
  let ?n = "length idx"
  have n: "length ?zs = ?n" using len by simp
  let ?j = "?n - 1 - i"
  have j: "?j < length (takeWhile carry_P (rev ?zs))"
    using i by (simp add: carry_count_alt)
  have "carry_P (takeWhile carry_P (rev ?zs) ! ?j)"
    using j by (meson nth_mem set_takeWhileD)
  moreover have "takeWhile carry_P (rev ?zs) ! ?j = rev ?zs ! ?j"
    using j by (rule takeWhile_nth)
  moreover have "rev ?zs ! ?j = ?zs ! i"
    using i n by (simp add: rev_nth)
  ultimately show ?thesis using i len by (simp add: carry_P_def)
qed

lemma carry_count_stop:
  assumes len: "length idx = length shp" and k: "carry_count shp idx < length idx"
  shows "idx ! (length idx - carry_count shp idx - 1) + 1 \<noteq> shp ! (length idx - carry_count shp idx - 1)"
proof -
  let ?zs = "zip idx shp"
  let ?n = "length idx"
  let ?k = "carry_count shp idx"
  have n: "length ?zs = ?n" using len by simp
  have "?k < length (rev ?zs)" using k n by simp
  then have "\<not> carry_P (rev ?zs ! ?k)"
    unfolding carry_count_alt by (rule nth_length_takeWhile)
  moreover have "rev ?zs ! ?k = ?zs ! (?n - ?k - 1)"
    using k n by (simp add: rev_nth)
  ultimately show ?thesis using k len by (simp add: carry_P_def)
qed

lemma unat_succ_below:
  fixes x e :: size_type
  assumes "x < e"
  shows "unat (x + 1) = Suc (unat x)"
  using assms by unat_arith

lemma succ_below:
  fixes x e :: size_type
  assumes "x < e" "x + 1 \<noteq> e"
  shows "x + 1 < e"
  using assms by unat_arith

lemma horner_carry_tail:
  assumes "\<forall>(x, e) \<in> set zs. x < e \<and> x + 1 = e"
  shows "Suc (foldl horner a zs) = foldl horner (Suc a) (map (\<lambda>(x, e). (0, e)) zs)"
  using assms
proof (induction zs arbitrary: a)
  case Nil
  then show ?case by simp
next
  case (Cons z zs)
  obtain x e where z: "z = (x, e)" by (cases z)
  have xe: "x < e" "x + 1 = e" using Cons.prems z by auto
  have e: "unat e = Suc (unat x)" using unat_succ_below [OF xe(1)] xe(2) by simp
  have step: "Suc (horner a z) = horner (Suc a) (0, e)" using z e by simp
  have "Suc (foldl horner a (z # zs)) = Suc (foldl horner (horner a z) zs)" by simp
  also have "\<dots> = foldl horner (Suc (horner a z)) (map (\<lambda>(x, e). (0, e)) zs)"
    by (rule Cons.IH) (use Cons.prems in auto)
  also have "\<dots> = foldl horner (horner (Suc a) (0, e)) (map (\<lambda>(x, e). (0, e)) zs)"
    by (simp only: step)
  also have "\<dots> = foldl horner (Suc a) (map (\<lambda>(x, e). (0, e)) (z # zs))"
    using z by simp
  finally show ?case .
qed

lemma horner_zero_tail:
  "foldl horner a (map (\<lambda>(x, e). (0, e)) zs) = a * prod_list (map (unat \<circ> snd) zs)"
  by (induction zs arbitrary: a) (auto simp: algebra_simps)

lemma zip_replicate_zero:
  "length ys = length es \<Longrightarrow>
   zip (replicate (length ys) (0::size_type)) es = map (\<lambda>(x, e). (0, e)) (zip ys es)"
  by (induction ys es rule: list_induct2) simp_all

lemma ravel_succ_decomp:
  assumes pre: "length pre = length pshp" and tl: "length ys = length es" and xe: "x < e"
      and carry: "\<forall>(y, d) \<in> set (zip ys es). y < d \<and> y + 1 = d"
  shows "ravel (pshp @ e # es) (pre @ (x + 1) # replicate (length ys) 0) =
         Suc (ravel (pshp @ e # es) (pre @ x # ys))"
proof -
  let ?A = "foldl horner 0 (zip pre pshp)"
  have "ravel (pshp @ e # es) (pre @ x # ys) = foldl horner (?A * unat e + unat x) (zip ys es)"
    using pre by (simp add: ravel_def)
  moreover have "ravel (pshp @ e # es) (pre @ (x + 1) # replicate (length ys) 0) =
        foldl horner (Suc (?A * unat e + unat x)) (map (\<lambda>(x, e). (0, e)) (zip ys es))"
    using pre by (simp add: ravel_def zip_replicate_zero [OF tl] unat_succ_below [OF xe])
  ultimately show ?thesis
    using horner_carry_tail [OF carry, of "?A * unat e + unat x"] by simp
qed

lemma ravel_last_decomp:
  assumes tl: "length ys = length es"
      and carry: "\<forall>(y, d) \<in> set (zip ys es). y < d \<and> y + 1 = d"
  shows "Suc (ravel es ys) = extent_product es"
proof -
  have "Suc (ravel es ys) = foldl horner (Suc 0) (map (\<lambda>(x, e). (0, e)) (zip ys es))"
    unfolding ravel_def by (rule horner_carry_tail [OF carry])
  also have "\<dots> = prod_list (map (unat \<circ> snd) (zip ys es))"
    by (simp add: horner_zero_tail)
  also have "map (unat \<circ> snd) (zip ys es) = map unat es"
    using tl by (simp add: map_snd_zip flip: map_map)
  finally show ?thesis by (simp add: extent_product_def)
qed

lemma valid_index_length: "valid_index shp idx \<Longrightarrow> length idx = length shp"
  by (simp add: valid_index_def list_all2_lengthD)

lemma valid_index_nth: "valid_index shp idx \<Longrightarrow> i < length idx \<Longrightarrow> idx ! i < shp ! i"
  by (simp add: valid_index_def list_all2_nthD)

lemma carried_tail_zip:
  assumes v: "valid_index shp idx" and m: "length idx - carry_count shp idx \<le> m"
  shows "\<forall>(y, d) \<in> set (zip (drop m idx) (drop m shp)). y < d \<and> y + 1 = d"
proof -
  have len: "length idx = length shp" by (rule valid_index_length [OF v])
  {
    fix y d assume "(y, d) \<in> set (zip (drop m idx) (drop m shp))"
    then obtain i where i: "i < length (drop m idx)" "drop m idx ! i = y" "drop m shp ! i = d"
      using len by (auto simp: in_set_zip)
    then have mi: "m + i < length idx" by simp
    have "y = idx ! (m + i)" "d = shp ! (m + i)" using i mi len by simp_all
    moreover have "idx ! (m + i) < shp ! (m + i)" by (rule valid_index_nth [OF v mi])
    moreover have "idx ! (m + i) + 1 = shp ! (m + i)"
      by (rule carry_count_tail [OF len _ mi]) (use m in simp)
    ultimately have "y < d \<and> y + 1 = d" by simp
  }
  then show ?thesis by blast
qed

lemma zeros_below:
  "\<forall>d \<in> set es. (0::size_type) < d \<Longrightarrow> list_all2 (<) (replicate (length es) 0) es"
  by (induction es) simp_all

lemma successor_index_row_major:
  assumes v: "valid_index shp idx" and k: "carry_count shp idx < length idx"
  shows "valid_index shp (successor_index shp idx) \<and>
         ravel shp (successor_index shp idx) = Suc (ravel shp idx)"
proof -
  have len: "length idx = length shp" by (rule valid_index_length [OF v])
  let ?k = "carry_count shp idx"
  let ?j = "length idx - ?k - 1"
  let ?ys = "drop (Suc ?j) idx" and ?es = "drop (Suc ?j) shp"
  have j: "?j < length idx" using k by simp
  have sj: "Suc ?j = length idx - ?k" using k by simp
  have lys: "length ?ys = ?k" using k by simp
  have les: "length ?ys = length ?es" using len by simp
  have idx: "idx = take ?j idx @ idx ! ?j # ?ys" using j by (simp add: id_take_nth_drop [symmetric])
  have shp: "shp = take ?j shp @ shp ! ?j # ?es" using j len by (simp add: id_take_nth_drop [symmetric])
  have succ: "successor_index shp idx = take ?j idx @ (idx ! ?j + 1) # replicate (length ?ys) 0"
    by (simp only: lys) (simp add: successor_index_def Let_def)
  have xe: "idx ! ?j < shp ! ?j" by (rule valid_index_nth [OF v j])
  have carry: "\<forall>(y, d) \<in> set (zip ?ys ?es). y < d \<and> y + 1 = d"
    by (rule carried_tail_zip [OF v]) (simp add: sj)
  have pre: "length (take ?j idx) = length (take ?j shp)" using len by simp
  have "ravel (take ?j shp @ shp ! ?j # ?es) (take ?j idx @ (idx ! ?j + 1) # replicate (length ?ys) 0) =
        Suc (ravel (take ?j shp @ shp ! ?j # ?es) (take ?j idx @ idx ! ?j # ?ys))"
    by (rule ravel_succ_decomp [OF pre les xe carry])
  then have r: "ravel shp (successor_index shp idx) = Suc (ravel shp idx)"
    using idx shp succ by simp
  have ne: "idx ! ?j + 1 \<noteq> shp ! ?j" by (rule carry_count_stop [OF len k])
  have "list_all2 (<) (take ?j idx) (take ?j shp)"
    using v by (simp add: valid_index_def list_all2_takeI)
  moreover have "idx ! ?j + 1 < shp ! ?j" by (rule succ_below [OF xe ne])
  moreover have "list_all2 (<) (replicate (length ?ys) 0) ?es"
  proof -
    have "\<forall>d \<in> set ?es. 0 < d"
    proof
      fix d assume "d \<in> set ?es"
      then obtain y where "(y, d) \<in> set (zip ?ys ?es)"
        using les by (metis in_set_impl_in_set_zip2)
      then have "y < d" using carry by auto
      then show "0 < d" by unat_arith
    qed
    then show ?thesis unfolding les by (rule zeros_below)
  qed
  ultimately have "list_all2 (<) (take ?j idx @ (idx ! ?j + 1) # replicate (length ?ys) 0)
                     (take ?j shp @ shp ! ?j # ?es)"
    by (simp add: list_all2_appendI)
  then have "valid_index shp (successor_index shp idx)"
    using shp succ by (simp add: valid_index_def)
  with r show ?thesis by simp
qed

lemma last_index_ravel:
  assumes v: "valid_index shp idx" and k: "carry_count shp idx = length idx"
  shows "Suc (ravel shp idx) = extent_product shp"
proof -
  have len: "length idx = length shp" by (rule valid_index_length [OF v])
  have "\<forall>(y, d) \<in> set (zip (drop 0 idx) (drop 0 shp)). y < d \<and> y + 1 = d"
    by (rule carried_tail_zip [OF v]) (simp add: k)
  then show ?thesis using ravel_last_decomp [OF len] by simp
qed

lemma valid_index_neq_shape:
  assumes "valid_index shp idx" "shp \<noteq> []"
  shows "idx \<noteq> shp"
proof
  assume "idx = shp"
  then have "list_all2 (<) shp shp" using assms(1) by (simp add: valid_index_def)
  moreover have "0 < length shp" using assms(2) by simp
  ultimately have "shp ! 0 < shp ! 0" by (rule list_all2_nthD)
  then show False by simp
qed

lemma increment_stepper_calls:
  assumes len: "length idx = length shp"
  shows "increment_stepper ops st idx shp =
           map_option (\<lambda>s. (s, odometer_index shp idx)) (run_calls ops (odometer_calls shp idx) st)"
proof -
  let ?n = "length idx" and ?k = "carry_count shp idx"
  have e: "(if ?n = 0 then [] else shp ! 0 # replicate (?n - 1) 0) =
           (case shp of [] \<Rightarrow> [] | e # es \<Rightarrow> e # replicate (length es) 0)"
    using len by (cases shp) simp_all
  have c: "carries ?n shp idx = ?k" by (rule carries_length [OF len])
  note L = increment_loop_spec [of ?n idx shp ops st, unfolded c, OF le_refl len]
  show ?thesis
  proof (cases "?k < ?n")
    case True
    then show ?thesis
      unfolding increment_stepper_def L
      by (simp add: odometer_calls_def odometer_index_def successor_index_def Let_def)
  next
    case False
    then show ?thesis
      unfolding increment_stepper_def L
      using e by (simp add: odometer_calls_def odometer_index_def Let_def)
  qed
qed

lemma horner_bound:
  assumes "list_all2 (<) xs es"
  shows "foldl horner a (zip xs es) < Suc a * prod_list (map unat es)"
  using assms
proof (induction xs es arbitrary: a rule: list_all2_induct)
  case Nil
  then show ?case by simp
next
  case (Cons x xs e es)
  have "unat x < unat e" using Cons.hyps(1) by (simp add: word_less_nat_alt)
  then have "Suc (a * unat e + unat x) \<le> Suc a * unat e" by simp
  then have "Suc (a * unat e + unat x) * prod_list (map unat es) \<le> Suc a * unat e * prod_list (map unat es)"
    by (rule mult_le_mono1)
  moreover have "foldl horner (a * unat e + unat x) (zip xs es) <
                 Suc (a * unat e + unat x) * prod_list (map unat es)"
    by (rule Cons.IH)
  ultimately have "foldl horner (a * unat e + unat x) (zip xs es) <
                   Suc a * unat e * prod_list (map unat es)"
    by (rule less_le_trans [rotated])
  then show ?case by (simp only: foldl_Cons zip_Cons_Cons list.map prod_list.Cons case_prod_conv mult.assoc)
qed

lemma ravel_bound: "valid_index shp idx \<Longrightarrow> ravel shp idx < extent_product shp"
  using horner_bound [of idx shp 0] by (simp add: valid_index_def ravel_def extent_product_def)

lemma horner_zeros: "foldl horner 0 (zip (replicate n 0) es) = 0"
proof -
  have "foldl horner a (zip (replicate n 0) es) = a * prod_list (map unat (take n es))" for a
  proof (induction n arbitrary: a es)
    case 0
    then show ?case by simp
  next
    case (Suc n)
    then show ?case by (cases es) (simp_all add: mult.assoc)
  qed
  then show ?thesis by simp
qed

lemma ravel_zeros: "ravel shp (replicate n 0) = 0"
  by (simp add: ravel_def horner_zeros)

lemma valid_index_zeros:
  "valid_index shp (replicate (length shp) 0) \<longleftrightarrow> (\<forall>d \<in> set shp. d \<noteq> 0)"
  by (induction shp) (simp_all add: valid_index_def word_neq_0_conv)

lemma dot_append:
  "length xs = length ys \<Longrightarrow> dot (xs @ us) (ys @ vs) = dot xs ys + dot us vs"
  by (simp add: dot_def)

lemma dot_Cons: "dot (x # xs) (y # ys) = x * y + dot xs ys"
  by (simp add: dot_def)

lemma dot_zeros: "dot (replicate n 0) ys = 0"
proof (induction n arbitrary: ys)
  case 0
  then show ?case by (simp add: dot_def)
next
  case (Suc n)
  then show ?case by (cases ys) (simp_all add: dot_def)
qed

lemma backstride_sum_carried:
  assumes "length ys = length es" "length es = length ss"
      and "\<forall>(y, d) \<in> set (zip ys es). y < d \<and> y + 1 = d"
  shows "sum_list (map2 (\<lambda>s d. s * (d - 1)) ss es) = dot ys ss"
  using assms
proof (induction ys es ss rule: list_induct3)
  case Nil
  then show ?case by (simp add: dot_def)
next
  case (Cons y ys d es s ss)
  have "d - 1 = y" using Cons.prems by auto
  moreover have "sum_list (map2 (\<lambda>s d. s * (d - 1)) ss es) = dot ys ss"
    by (rule Cons.IH) (use Cons.prems in auto)
  ultimately show ?case by (simp add: dot_Cons mult.commute)
qed

lemma dot_successor:
  assumes v: "valid_index shp idx" and k: "carry_count shp idx < length idx"
      and ls: "length strides = length shp"
  shows "dot (successor_index shp idx) strides =
         dot idx strides
         - sum_list (drop (length idx - carry_count shp idx) (map2 (\<lambda>s d. s * (d - 1)) strides shp))
         + strides ! (length idx - carry_count shp idx - 1)"
proof -
  have len: "length idx = length shp" by (rule valid_index_length [OF v])
  let ?n = "length idx" and ?k = "carry_count shp idx"
  define j where "j = ?n - ?k - 1"
  have sj: "?n - ?k = Suc j" and jn: "j < ?n" using k by (simp_all add: j_def)
  let ?ys = "drop (Suc j) idx" and ?es = "drop (Suc j) shp" and ?ss = "drop (Suc j) strides"
  have lys: "length ?ys = ?k" using k sj by simp
  have idx: "idx = take j idx @ idx ! j # ?ys" using jn by (simp add: id_take_nth_drop [symmetric])
  have str: "strides = take j strides @ strides ! j # ?ss"
    using jn len ls by (simp add: id_take_nth_drop [symmetric])
  have succ: "successor_index shp idx = take j idx @ (idx ! j + 1) # replicate ?k 0"
    by (simp add: successor_index_def Let_def j_def)
  have pre: "length (take j idx) = length (take j strides)" using len ls by simp
  have carry: "\<forall>(y, d) \<in> set (zip ?ys ?es). y < d \<and> y + 1 = d"
    by (rule carried_tail_zip [OF v]) (simp add: sj)
  have bs: "sum_list (map2 (\<lambda>s d. s * (d - 1)) ?ss ?es) = dot ?ys ?ss"
    by (rule backstride_sum_carried [OF _ _ carry]) (use len ls in simp_all)
  have d1: "dot idx strides = dot (take j idx) (take j strides) + (idx ! j * strides ! j + dot ?ys ?ss)"
    using dot_append [OF pre, of "idx ! j # ?ys" "strides ! j # ?ss"] idx str
    by (simp add: dot_Cons)
  have d2: "dot (successor_index shp idx) strides =
            dot (take j idx) (take j strides) + ((idx ! j + 1) * strides ! j + dot (replicate ?k 0) ?ss)"
    using dot_append [OF pre, of "(idx ! j + 1) # replicate ?k 0" "strides ! j # ?ss"] str
    by (simp add: succ dot_Cons)
  have dr: "drop (Suc j) (map2 (\<lambda>s d. s * (d - 1)) strides shp) = map2 (\<lambda>s d. s * (d - 1)) ?ss ?es"
    by (simp add: drop_map drop_zip)
  show ?thesis
    unfolding sj dr bs d2 dot_zeros
    by (simp add: d1 j_def [symmetric] algebra_simps)
qed

lemma traverse_at_end:
  "xiterator_equal ops it stop \<Longrightarrow> traverse ops fuel it stop = Some []"
  by (cases fuel) simp_all

lemma indexed_apply_reset:
  assumes "m < length idx"
  shows "apply_call (xindexed_stepper_ops h) (Reset m)
           \<lparr>xi_p_e = p, xi_m_index = drop off idx, xi_m_offset = off\<rparr> =
         Some \<lparr>xi_p_e = p, xi_m_index = drop off (idx[m := 0]), xi_m_offset = off\<rparr>"
proof (cases "off \<le> m")
  case True
  then show ?thesis using assms
    by (simp add: xindexed_stepper_ops_def xindexed_stepper_reset_def drop_update_swap)
next
  case False
  then show ?thesis
    by (simp add: xindexed_stepper_ops_def xindexed_stepper_reset_def)
qed

lemma indexed_apply_step:
  assumes "m < length idx"
  shows "apply_call (xindexed_stepper_ops h) (Step m)
           \<lparr>xi_p_e = p, xi_m_index = drop off idx, xi_m_offset = off\<rparr> =
         Some \<lparr>xi_p_e = p, xi_m_index = drop off (idx[m := idx ! m + 1]), xi_m_offset = off\<rparr>"
proof (cases "off \<le> m")
  case True
  then show ?thesis using assms
    by (simp add: xindexed_stepper_ops_def xindexed_stepper_step_def drop_update_swap)
next
  case False
  then show ?thesis
    by (simp add: xindexed_stepper_ops_def xindexed_stepper_step_def)
qed

lemma indexed_run_resets:
  assumes "a \<le> m" "m \<le> length idx"
  shows "run_calls (xindexed_stepper_ops h) (map Reset (rev [a..<m]))
           \<lparr>xi_p_e = p, xi_m_index = drop off idx, xi_m_offset = off\<rparr> =
         Some \<lparr>xi_p_e = p, xi_m_index = drop off (take a idx @ replicate (m - a) 0 @ drop m idx),
               xi_m_offset = off\<rparr>"
  using assms
proof (induction m arbitrary: idx)
  case 0
  then show ?case by simp
next
  case (Suc m)
  show ?case
  proof (cases "a = Suc m")
    case True
    then show ?thesis by simp
  next
    case False
    then have am: "a \<le> m" using Suc.prems by simp
    have m: "m < length idx" using Suc.prems by simp
    let ?idx = "idx[m := 0]"
    have r: "map Reset (rev [a..<Suc m]) = Reset m # map Reset (rev [a..<m])"
      using am by simp
    note st = indexed_apply_reset [OF m, of h p off]
    have IH: "run_calls (xindexed_stepper_ops h) (map Reset (rev [a..<m]))
           \<lparr>xi_p_e = p, xi_m_index = drop off ?idx, xi_m_offset = off\<rparr> =
         Some \<lparr>xi_p_e = p, xi_m_index = drop off (take a ?idx @ replicate (m - a) 0 @ drop m ?idx),
               xi_m_offset = off\<rparr>"
      by (rule Suc.IH) (use am m in simp_all)
    have "take a ?idx @ replicate (m - a) 0 @ drop m ?idx =
          take a idx @ replicate (Suc m - a) 0 @ drop (Suc m) idx"
    proof -
      have "drop m ?idx = 0 # drop (Suc m) idx" using m by (simp add: upd_conv_take_nth_drop)
      moreover have "take a ?idx = take a idx" using am by simp
      moreover have "replicate (m - a) (0::size_type) @ 0 # drop (Suc m) idx =
                     replicate (Suc m - a) 0 @ drop (Suc m) idx"
        using am by (simp add: replicate_app_Cons_same Suc_diff_le)
      ultimately show ?thesis by simp
    qed
    then show ?thesis unfolding r using st IH by simp
  qed
qed

lemma successor_index_update:
  assumes k: "carry_count shp idx < length idx"
  shows "successor_index shp idx =
         (take (length idx - carry_count shp idx) idx @ replicate (carry_count shp idx) 0)
           [length idx - carry_count shp idx - 1 :=
              (take (length idx - carry_count shp idx) idx @ replicate (carry_count shp idx) 0)
                ! (length idx - carry_count shp idx - 1) + 1]"
proof -
  let ?n = "length idx" and ?k = "carry_count shp idx"
  define j where "j = ?n - ?k - 1"
  have sj: "?n - ?k = Suc j" and jn: "j < ?n" using k by (simp_all add: j_def)
  have tk: "take (Suc j) idx = take j idx @ [idx ! j]" using jn by (rule take_Suc_conv_app_nth)
  have succ: "successor_index shp idx = take j idx @ (idx ! j + 1) # replicate ?k 0"
    by (simp add: successor_index_def Let_def j_def)
  show ?thesis
    unfolding sj succ using jn
    by (simp add: tk nth_append list_update_append)
qed

lemma indexed_run_odometer_step:
  assumes len: "length idx = length shp" and k: "carry_count shp idx < length idx"
  shows "run_calls (xindexed_stepper_ops h) (odometer_calls shp idx)
           \<lparr>xi_p_e = p, xi_m_index = drop off idx, xi_m_offset = off\<rparr> =
         Some \<lparr>xi_p_e = p, xi_m_index = drop off (successor_index shp idx), xi_m_offset = off\<rparr>"
proof -
  let ?n = "length idx" and ?k = "carry_count shp idx"
  define j where "j = ?n - ?k - 1"
  have sj: "?n - ?k = Suc j" and jn: "j < ?n" using k by (simp_all add: j_def)
  define mid where "mid = take (Suc j) idx @ replicate ?k 0"
  have nk: "?n - Suc j = ?k" using k sj by simp
  have rs: "run_calls (xindexed_stepper_ops h) (map Reset (rev [Suc j..<?n]))
           \<lparr>xi_p_e = p, xi_m_index = drop off idx, xi_m_offset = off\<rparr> =
         Some \<lparr>xi_p_e = p, xi_m_index = drop off mid, xi_m_offset = off\<rparr>"
  proof -
    have "take (Suc j) idx @ replicate (?n - Suc j) 0 @ drop ?n idx = mid"
      unfolding mid_def nk by simp
    moreover have "Suc j \<le> ?n" using jn by simp
    ultimately show ?thesis
      using indexed_run_resets [of "Suc j" ?n idx h p off] by (simp only: le_refl)
  qed
  have lm: "j < length mid" using jn by (simp add: mid_def)
  have succ: "successor_index shp idx = mid[j := mid ! j + 1]"
    by (rule successor_index_update [OF k, folded j_def, unfolded sj, folded mid_def])
  have calls: "odometer_calls shp idx = map Reset (rev [Suc j..<?n]) @ [Step j]"
    using k by (simp add: odometer_calls_def Let_def sj)
  show ?thesis
    unfolding calls succ using rs indexed_apply_step [OF lm, of h p off]
    by (simp add: run_calls_append)
qed

lemma indexed_run_odometer_end:
  assumes len: "length idx = length shp" and k: "\<not> carry_count shp idx < length idx"
      and e: "h p = Some e"
  shows "run_calls (xindexed_stepper_ops h) (odometer_calls shp idx)
           \<lparr>xi_p_e = p, xi_m_index = drop off idx, xi_m_offset = off\<rparr> =
         Some \<lparr>xi_p_e = p, xi_m_index = e_shape e, xi_m_offset = off\<rparr>"
proof -
  let ?n = "length idx"
  have te: "apply_call (xindexed_stepper_ops h) ToEnd \<lparr>xi_p_e = p, xi_m_index = xs, xi_m_offset = off\<rparr> =
            Some \<lparr>xi_p_e = p, xi_m_index = e_shape e, xi_m_offset = off\<rparr>" for xs
    using e by (simp add: xindexed_stepper_ops_def xindexed_stepper_to_end_def)
  show ?thesis
  proof (cases "?n = 0")
    case True
    then show ?thesis using k te by (simp add: odometer_calls_def Let_def)
  next
    case False
    then have "1 \<le> ?n" by (cases idx) simp_all
    then have "run_calls (xindexed_stepper_ops h) (map Reset (rev [1..<?n]))
           \<lparr>xi_p_e = p, xi_m_index = drop off idx, xi_m_offset = off\<rparr> =
         Some \<lparr>xi_p_e = p, xi_m_index = drop off (take 1 idx @ replicate (?n - 1) 0 @ drop ?n idx),
               xi_m_offset = off\<rparr>"
      by (intro indexed_run_resets) simp_all
    then show ?thesis using k te
      by (simp add: odometer_calls_def Let_def run_calls_append)
  qed
qed

lemma drop_successor_same:
  assumes k: "carry_count shp idx < length idx"
  shows "drop off (successor_index shp idx) = drop off idx \<longleftrightarrow>
         length idx - carry_count shp idx - 1 < off \<and> drop off idx = replicate (length idx - off) 0"
proof -
  let ?n = "length idx" and ?k = "carry_count shp idx"
  define j where "j = ?n - ?k - 1"
  have jn: "j < ?n" and kj: "?k = ?n - Suc j" using k by (simp_all add: j_def)
  have succ: "successor_index shp idx = take j idx @ (idx ! j + 1) # replicate ?k 0"
    by (simp add: successor_index_def Let_def j_def)
  show ?thesis
  proof (cases "off \<le> j")
    case True
    have "drop off (successor_index shp idx) ! (j - off) = idx ! j + 1"
      using True jn by (simp add: succ nth_append)
    moreover have "drop off idx ! (j - off) = idx ! j" using True jn by simp
    ultimately have "drop off (successor_index shp idx) \<noteq> drop off idx" by auto
    then show ?thesis using True by (simp add: j_def)
  next
    case False
    then obtain d where d: "off = Suc j + d" by (metis add_Suc less_imp_Suc_add not_le)
    have "drop (Suc j + d) (take j idx @ (idx ! j + 1) # replicate ?k 0) = replicate (?k - d) 0"
      using jn by simp
    then have "drop off (successor_index shp idx) = replicate (?k - (off - Suc j)) 0"
      by (simp add: succ d)
    moreover have "?k - (off - Suc j) = ?n - off" using False kj by simp
    ultimately show ?thesis using False by (auto simp: j_def)
  qed
qed

lemma indexed_incr_step:
  assumes len: "length idx = length shp" and k: "carry_count shp idx < length idx"
  shows "xiterator_incr (xindexed_stepper_ops h) (indexed_position p off shp idx) =
         Some (indexed_position p off shp (successor_index shp idx))"
  using k
  by (simp add: xiterator_incr_def indexed_position_def increment_stepper_calls [OF len]
        indexed_run_odometer_step [OF len k] odometer_index_def)

lemma indexed_incr_end:
  assumes len: "length idx = length shp" and k: "\<not> carry_count shp idx < length idx"
      and e: "h p = Some e"
  shows "xiterator_incr (xindexed_stepper_ops h) (indexed_position p off shp idx) =
         Some \<lparr>it_shape = shp, it_m_it = \<lparr>xi_p_e = p, xi_m_index = e_shape e, xi_m_offset = off\<rparr>,
               it_m_index = odometer_index shp idx\<rparr>"
  by (simp add: xiterator_incr_def indexed_position_def increment_stepper_calls [OF len]
        indexed_run_odometer_end [where h = h and p = p, OF len k e])

lemma indexed_traverse:
  assumes e: "h p = Some e"
      and apart: "\<forall>i. valid_index shp i \<longrightarrow> drop off i \<noteq> e_shape e"
      and v: "valid_index shp idx"
      and fuel: "extent_product shp - ravel shp idx \<le> fuel"
  shows "\<exists>vs. traverse (xindexed_stepper_ops h) fuel (indexed_position p off shp idx)
                (xiterator_ctor \<lparr>xi_p_e = p, xi_m_index = e_shape e, xi_m_offset = off\<rparr> shp) = Some vs
              \<and> length vs = extent_product shp - ravel shp idx"
  using v fuel
proof (induction fuel arbitrary: idx)
  case 0
  then show ?case using ravel_bound [of shp idx] by simp
next
  case (Suc fuel)
  let ?ops = "xindexed_stepper_ops h"
  let ?stop = "xiterator_ctor \<lparr>xi_p_e = p, xi_m_index = e_shape e, xi_m_offset = off\<rparr> shp"
  let ?it = "indexed_position p off shp idx"
  have len: "length idx = length shp" by (rule valid_index_length [OF Suc.prems(1)])
  have bound: "ravel shp idx < extent_product shp" by (rule ravel_bound [OF Suc.prems(1)])
  have neq: "\<not> xiterator_equal ?ops ?it ?stop"
    using apart Suc.prems(1)
    by (simp add: xiterator_equal_def xindexed_stepper_ops_def xindexed_stepper_equal_def
          indexed_position_def xiterator_ctor_def)
  have d: "xiterator_deref ?ops ?it = Some (e_element e (drop off idx))"
    using e by (simp add: xiterator_deref_def xindexed_stepper_ops_def xindexed_stepper_deref_def
                  indexed_position_def)
  show ?case
  proof (cases "carry_count shp idx < length idx")
    case True
    let ?idx = "successor_index shp idx"
    have s: "valid_index shp ?idx" "ravel shp ?idx = Suc (ravel shp idx)"
      using successor_index_row_major [OF Suc.prems(1) True] by simp_all
    have i: "xiterator_incr ?ops ?it = Some (indexed_position p off shp ?idx)"
      by (rule indexed_incr_step [OF len True])
    have "extent_product shp - ravel shp ?idx \<le> fuel" using Suc.prems(2) s(2) by simp
    from Suc.IH [OF s(1) this] obtain vs where
      vs: "traverse ?ops fuel (indexed_position p off shp ?idx) ?stop = Some vs"
          "length vs = extent_product shp - ravel shp ?idx" by blast
    have "traverse ?ops (Suc fuel) ?it ?stop = Some (?it # vs)"
      using neq d i vs(1) by simp
    moreover have "length (?it # vs) = extent_product shp - ravel shp idx"
      using vs(2) s(2) bound by simp
    ultimately show ?thesis by blast
  next
    case False
    then have k: "carry_count shp idx = length idx" using carry_count_le [OF len] by simp
    let ?it' = "\<lparr>it_shape = shp, it_m_it = \<lparr>xi_p_e = p, xi_m_index = e_shape e, xi_m_offset = off\<rparr>,
               it_m_index = odometer_index shp idx\<rparr>"
    have i: "xiterator_incr ?ops ?it = Some ?it'"
      by (rule indexed_incr_end [where h = h and p = p, OF len False e])
    have "xiterator_equal ?ops ?it' ?stop"
      by (simp add: xiterator_equal_def xindexed_stepper_ops_def xindexed_stepper_equal_def
            xiterator_ctor_def)
    then have t: "traverse ?ops fuel ?it' ?stop = Some []" by (rule traverse_at_end)
    have "traverse ?ops (Suc fuel) ?it ?stop = Some [?it]"
      using neq d i t by simp
    moreover have "length [?it] = extent_product shp - ravel shp idx"
      using last_index_ravel [OF Suc.prems(1) k] by simp
    ultimately show ?thesis by blast
  qed
qed

lemma trailing_apart:
  assumes off: "off < length shp" and v: "valid_index shp i"
  shows "drop off i \<noteq> drop off shp"
proof -
  have "valid_index (drop off shp) (drop off i)"
    using v by (simp add: valid_index_def list_all2_dropI)
  moreover have "drop off shp \<noteq> []" using off by simp
  ultimately show ?thesis by (rule valid_index_neq_shape)
qed

lemma indexed_begin:
  assumes "g q = Some e" "length (e_shape e) = length shp - off"
      and "xindexed_stepper_ctor g q off False = Some b"
  shows "xiterator_ctor b shp = indexed_position q off shp (replicate (length shp) 0)"
  using assms by (auto simp: xindexed_stepper_ctor_def xiterator_ctor_def indexed_position_def)

lemma indexed_end:
  assumes "g q = Some e" "xindexed_stepper_ctor g q off True = Some t"
  shows "t = \<lparr>xi_p_e = q, xi_m_index = e_shape e, xi_m_offset = off\<rparr>"
  using assms by (auto simp: xindexed_stepper_ctor_def xindexed_stepper_to_end_def)

lemma strided_apply_reset:
  assumes c: "h p = Some c" and m: "m < off + length (c_backstrides c)"
  shows "apply_call (xstepper_ops h) (Reset m) \<lparr>xs_p_c = p, xs_m_it = cur, xs_m_offset = off\<rparr> =
         Some \<lparr>xs_p_c = p, xs_m_it = cur - pad_strides off (c_backstrides c) ! m, xs_m_offset = off\<rparr>"
  using c m by (auto simp: xstepper_ops_def xstepper_reset_def pad_strides_def nth_append)

lemma strided_apply_step:
  assumes c: "h p = Some c" and m: "m < off + length (c_strides c)"
  shows "apply_call (xstepper_ops h) (Step m) \<lparr>xs_p_c = p, xs_m_it = cur, xs_m_offset = off\<rparr> =
         Some \<lparr>xs_p_c = p, xs_m_it = cur + pad_strides off (c_strides c) ! m, xs_m_offset = off\<rparr>"
  using c m by (auto simp: xstepper_ops_def xstepper_step_def pad_strides_def nth_append)

lemma strided_run_resets:
  assumes c: "h p = Some c" and am: "a \<le> m" and m: "m \<le> off + length (c_backstrides c)"
  shows "run_calls (xstepper_ops h) (map Reset (rev [a..<m]))
           \<lparr>xs_p_c = p, xs_m_it = cur, xs_m_offset = off\<rparr> =
         Some \<lparr>xs_p_c = p,
               xs_m_it = cur - sum_list (take (m - a) (drop a (pad_strides off (c_backstrides c)))),
               xs_m_offset = off\<rparr>"
  using am m
proof (induction m arbitrary: cur)
  case 0
  then show ?case by simp
next
  case (Suc m)
  let ?bs = "pad_strides off (c_backstrides c)"
  have lbs: "length ?bs = off + length (c_backstrides c)" by (simp add: pad_strides_def)
  show ?case
  proof (cases "a = Suc m")
    case True
    then show ?thesis by simp
  next
    case False
    then have am: "a \<le> m" using Suc.prems by simp
    have m: "m < off + length (c_backstrides c)" using Suc.prems by simp
    have r: "map Reset (rev [a..<Suc m]) = Reset m # map Reset (rev [a..<m])"
      using am by simp
    note st = strided_apply_reset [where h = h and p = p, OF c m, of cur]
    have IH: "run_calls (xstepper_ops h) (map Reset (rev [a..<m]))
           \<lparr>xs_p_c = p, xs_m_it = cur - ?bs ! m, xs_m_offset = off\<rparr> =
         Some \<lparr>xs_p_c = p, xs_m_it = cur - ?bs ! m - sum_list (take (m - a) (drop a ?bs)),
               xs_m_offset = off\<rparr>"
      by (rule Suc.IH) (use am m in simp_all)
    have "take (Suc m - a) (drop a ?bs) = take (m - a) (drop a ?bs) @ [?bs ! m]"
    proof -
      have "Suc m - a = Suc (m - a)" using am by simp
      moreover have "m - a < length (drop a ?bs)" using am m lbs by simp
      moreover have "drop a ?bs ! (m - a) = ?bs ! m" using am m lbs by simp
      ultimately show ?thesis by (simp add: take_Suc_conv_app_nth)
    qed
    then have "cur - ?bs ! m - sum_list (take (m - a) (drop a ?bs)) =
               cur - sum_list (take (Suc m - a) (drop a ?bs))"
      by simp
    then show ?thesis unfolding r using st IH by simp
  qed
qed

lemma strided_run_odometer_step:
  assumes c: "h p = Some c" and len: "length idx = length shp"
      and ls: "off + length (c_strides c) = length shp"
      and lb: "off + length (c_backstrides c) = length shp"
      and k: "carry_count shp idx < length idx"
  shows "run_calls (xstepper_ops h) (odometer_calls shp idx)
           \<lparr>xs_p_c = p, xs_m_it = cur, xs_m_offset = off\<rparr> =
         Some \<lparr>xs_p_c = p,
               xs_m_it = cur - sum_list (drop (length idx - carry_count shp idx)
                                           (pad_strides off (c_backstrides c)))
                         + pad_strides off (c_strides c) ! (length idx - carry_count shp idx - 1),
               xs_m_offset = off\<rparr>"
proof -
  let ?n = "length idx" and ?k = "carry_count shp idx"
  let ?bs = "pad_strides off (c_backstrides c)"
  define j where "j = ?n - ?k - 1"
  have sj: "?n - ?k = Suc j" and jn: "j < ?n" using k by (simp_all add: j_def)
  have lbs: "length ?bs = ?n" using lb len by (simp add: pad_strides_def)
  have rs: "run_calls (xstepper_ops h) (map Reset (rev [Suc j..<?n]))
           \<lparr>xs_p_c = p, xs_m_it = cur, xs_m_offset = off\<rparr> =
         Some \<lparr>xs_p_c = p, xs_m_it = cur - sum_list (take (?n - Suc j) (drop (Suc j) ?bs)),
               xs_m_offset = off\<rparr>"
    by (rule strided_run_resets [where h = h and p = p, OF c]) (use jn len lb in simp_all)
  have tk: "take (?n - Suc j) (drop (Suc j) ?bs) = drop (Suc j) ?bs"
    using lbs by simp
  have calls: "odometer_calls shp idx = map Reset (rev [Suc j..<?n]) @ [Step j]"
    using k by (simp add: odometer_calls_def Let_def sj)
  have "j < off + length (c_strides c)" using jn len ls by simp
  note st = strided_apply_step [where h = h and p = p, OF c this]
  show ?thesis
    unfolding calls sj using rs [unfolded tk] st
    by (simp add: run_calls_append j_def)
qed

lemma strided_run_odometer_end:
  assumes c: "h p = Some c" and len: "length idx = length shp"
      and lb: "off + length (c_backstrides c) = length shp"
      and k: "\<not> carry_count shp idx < length idx"
  shows "run_calls (xstepper_ops h) (odometer_calls shp idx)
           \<lparr>xs_p_c = p, xs_m_it = cur, xs_m_offset = off\<rparr> =
         Some \<lparr>xs_p_c = p, xs_m_it = c_end c, xs_m_offset = off\<rparr>"
proof -
  let ?n = "length idx"
  have te: "apply_call (xstepper_ops h) ToEnd \<lparr>xs_p_c = p, xs_m_it = x, xs_m_offset = off\<rparr> =
            Some \<lparr>xs_p_c = p, xs_m_it = c_end c, xs_m_offset = off\<rparr>" for x
    using c by (simp add: xstepper_ops_def xstepper_to_end_def)
  show ?thesis
  proof (cases "?n = 0")
    case True
    then show ?thesis using k te by (simp add: odometer_calls_def Let_def)
  next
    case False
    then have "1 \<le> ?n" by (cases idx) simp_all
    then have "run_calls (xstepper_ops h) (map Reset (rev [1..<?n]))
           \<lparr>xs_p_c = p, xs_m_it = cur, xs_m_offset = off\<rparr> =
         Some \<lparr>xs_p_c = p,
               xs_m_it = cur - sum_list (take (?n - 1) (drop 1 (pad_strides off (c_backstrides c)))),
               xs_m_offset = off\<rparr>"
      by (intro strided_run_resets [where h = h and p = p, OF c]) (use len lb in simp_all)
    then show ?thesis using k te
      by (simp add: odometer_calls_def Let_def run_calls_append)
  qed
qed

lemma pad_layout:
  assumes "strided_layout c off shp"
  shows "length (pad_strides off (c_strides c)) = length shp"
    and "off + length (c_strides c) = length shp"
    and "off + length (c_backstrides c) = length shp"
    and "pad_strides off (c_backstrides c) =
         map2 (\<lambda>s d. s * (d - 1)) (pad_strides off (c_strides c)) shp"
proof -
  have o: "off \<le> length shp" and ls: "length (c_strides c) = length shp - off"
    and bs: "c_backstrides c = map2 (\<lambda>s d. s * (d - 1)) (c_strides c) (drop off shp)"
    using assms by (simp_all add: strided_layout_def)
  show "length (pad_strides off (c_strides c)) = length shp" using o ls by (simp add: pad_strides_def)
  show "off + length (c_strides c) = length shp" using o ls by simp
  show "off + length (c_backstrides c) = length shp" using o ls by (simp add: bs)
  have z: "map2 (\<lambda>s d. s * (d - 1)) (replicate n (0::size_type)) ds = replicate (min n (length ds)) 0" for n ds
  proof (induction n arbitrary: ds)
    case 0
    then show ?case by simp
  next
    case (Suc n)
    then show ?case by (cases ds) simp_all
  qed
  have "map2 (\<lambda>s d. s * (d - 1)) (replicate off 0 @ c_strides c) (take off shp @ drop off shp) =
        map2 (\<lambda>s d. s * (d - 1)) (replicate off 0) (take off shp) @
        map2 (\<lambda>s d. s * (d - 1)) (c_strides c) (drop off shp)"
    using o by (subst zip_append) simp_all
  then show "pad_strides off (c_backstrides c) =
         map2 (\<lambda>s d. s * (d - 1)) (pad_strides off (c_strides c)) shp"
    using o by (simp add: pad_strides_def bs z min_def)
qed

lemma dot_zeros_right: "dot xs (replicate n 0) = 0"
proof (induction n arbitrary: xs)
  case 0
  then show ?case by (simp add: dot_def)
next
  case (Suc n)
  then show ?case by (cases xs) (simp_all add: dot_def)
qed

lemma dot_pad:
  assumes "off \<le> length i"
  shows "dot i (pad_strides off st) = dot (drop off i) st"
proof -
  have "dot (take off i @ drop off i) (replicate off 0 @ st) =
        dot (take off i) (replicate off 0) + dot (drop off i) st"
    by (rule dot_append) (use assms in simp)
  then show ?thesis by (simp add: pad_strides_def dot_zeros_right)
qed

lemma strided_incr_step:
  assumes c: "h p = Some c" and lay: "strided_layout c off shp"
      and v: "valid_index shp idx" and k: "carry_count shp idx < length idx"
  shows "xiterator_incr (xstepper_ops h) (strided_position p start c off shp idx) =
         Some (strided_position p start c off shp (successor_index shp idx))"
proof -
  have len: "length idx = length shp" by (rule valid_index_length [OF v])
  note pl = pad_layout [OF lay]
  note run = strided_run_odometer_step [where h = h and p = p, OF c len pl(2) pl(3) k]
  note ds = dot_successor [OF v k pl(1), folded pl(4)]
  show ?thesis
    using k
    by (simp add: xiterator_incr_def strided_position_def increment_stepper_calls [OF len]
          run odometer_index_def ds algebra_simps)
qed

lemma strided_incr_end:
  assumes c: "h p = Some c" and lay: "strided_layout c off shp"
      and len: "length idx = length shp" and k: "\<not> carry_count shp idx < length idx"
  shows "xiterator_incr (xstepper_ops h) (strided_position p start c off shp idx) =
         Some \<lparr>it_shape = shp, it_m_it = \<lparr>xs_p_c = p, xs_m_it = c_end c, xs_m_offset = off\<rparr>,
               it_m_index = odometer_index shp idx\<rparr>"
proof -
  note pl = pad_layout [OF lay]
  note run = strided_run_odometer_end [where h = h and p = p, OF c len pl(3) k]
  show ?thesis
    by (simp add: xiterator_incr_def strided_position_def increment_stepper_calls [OF len] run)
qed

lemma strided_traverse:
  assumes c: "h p = Some c" and lay: "strided_layout c off shp"
      and reach: "\<forall>i. valid_index shp i \<longrightarrow>
                    start + dot i (pad_strides off (c_strides c)) \<noteq> c_end c \<and>
                    unat (start + dot i (pad_strides off (c_strides c))) < length (c_data c)"
      and v: "valid_index shp idx"
      and fuel: "extent_product shp - ravel shp idx \<le> fuel"
  shows "\<exists>vs. traverse (xstepper_ops h) fuel (strided_position p start c off shp idx)
                (xiterator_ctor (xstepper_ctor p (c_end c) off) shp) = Some vs
              \<and> length vs = extent_product shp - ravel shp idx"
  using v fuel
proof (induction fuel arbitrary: idx)
  case 0
  then show ?case using ravel_bound [of shp idx] by simp
next
  case (Suc fuel)
  let ?ops = "xstepper_ops h"
  let ?stop = "xiterator_ctor (xstepper_ctor p (c_end c) off) shp"
  let ?it = "strided_position p start c off shp idx"
  let ?cur = "start + dot idx (pad_strides off (c_strides c))"
  have len: "length idx = length shp" by (rule valid_index_length [OF Suc.prems(1)])
  have bound: "ravel shp idx < extent_product shp" by (rule ravel_bound [OF Suc.prems(1)])
  have r: "?cur \<noteq> c_end c" "unat ?cur < length (c_data c)"
    using reach Suc.prems(1) by simp_all
  have neq: "\<not> xiterator_equal ?ops ?it ?stop"
    using r(1) by (simp add: xiterator_equal_def xstepper_ops_def xstepper_equal_def
          strided_position_def xiterator_ctor_def xstepper_ctor_def)
  have d: "xiterator_deref ?ops ?it = Some (c_data c ! unat ?cur)"
    using c r(2) by (simp add: xiterator_deref_def xstepper_ops_def xstepper_deref_def strided_position_def)
  show ?case
  proof (cases "carry_count shp idx < length idx")
    case True
    let ?idx = "successor_index shp idx"
    have s: "valid_index shp ?idx" "ravel shp ?idx = Suc (ravel shp idx)"
      using successor_index_row_major [OF Suc.prems(1) True] by simp_all
    have i: "xiterator_incr ?ops ?it = Some (strided_position p start c off shp ?idx)"
      by (rule strided_incr_step [where h = h and p = p, OF c lay Suc.prems(1) True])
    have "extent_product shp - ravel shp ?idx \<le> fuel" using Suc.prems(2) s(2) by simp
    from Suc.IH [OF s(1) this] obtain vs where
      vs: "traverse ?ops fuel (strided_position p start c off shp ?idx) ?stop = Some vs"
          "length vs = extent_product shp - ravel shp ?idx" by blast
    have "traverse ?ops (Suc fuel) ?it ?stop = Some (?it # vs)"
      using neq d i vs(1) by simp
    moreover have "length (?it # vs) = extent_product shp - ravel shp idx"
      using vs(2) s(2) bound by simp
    ultimately show ?thesis by blast
  next
    case False
    then have k: "carry_count shp idx = length idx" using carry_count_le [OF len] by simp
    let ?it' = "\<lparr>it_shape = shp, it_m_it = \<lparr>xs_p_c = p, xs_m_it = c_end c, xs_m_offset = off\<rparr>,
               it_m_index = odometer_index shp idx\<rparr>"
    have i: "xiterator_incr ?ops ?it = Some ?it'"
      by (rule strided_incr_end [where h = h and p = p, OF c lay len False])
    have "xiterator_equal ?ops ?it' ?stop"
      by (simp add: xiterator_equal_def xstepper_ops_def xstepper_equal_def
            xiterator_ctor_def xstepper_ctor_def)
    then have t: "traverse ?ops fuel ?it' ?stop = Some []" by (rule traverse_at_end)
    have "traverse ?ops (Suc fuel) ?it ?stop = Some [?it]"
      using neq d i t by simp
    moreover have "length [?it] = extent_product shp - ravel shp idx"
      using last_index_ravel [OF Suc.prems(1) k] by simp
    ultimately show ?thesis by blast
  qed
qed

lemma strided_begin:
  "xiterator_ctor (xstepper_ctor p start off) shp =
   strided_position p start c off shp (replicate (length shp) 0)"
  by (simp add: xiterator_ctor_def xstepper_ctor_def strided_position_def dot_zeros)

lemma extent_product_zero: "0 \<in> set shp \<Longrightarrow> extent_product shp = 0"
  by (auto simp: extent_product_def prod_list_zero_iff intro!: image_eqI [where x = 0])

lemma row3_offsets:
  assumes "valid_index [2, 3] i"
  obtains a b where "i = [a, b]" "b < 3" "dot i (pad_strides 1 (c_strides row3)) = b"
proof -
  from assms obtain a b where i: "i = [a, b]" and b: "b < 3"
    by (auto simp: valid_index_def list_all2_Cons2)
  have "dot i (pad_strides 1 (c_strides row3)) = b"
    by (simp add: i dot_def pad_strides_def row3_def)
  with i b show ?thesis by (rule that)
qed

lemma row3_reach:
  assumes "valid_index [2, 3] i"
  shows "0 + dot i (pad_strides 1 (c_strides row3)) \<noteq> c_end row3 \<and>
         unat (0 + dot i (pad_strides 1 (c_strides row3))) < length (c_data row3)"
proof -
  from assms obtain a b :: size_type where b: "b < 3" and d: "dot i (pad_strides 1 (c_strides row3)) = b"
    by (rule row3_offsets)
  have "unat b < 3" using b by (simp add: word_less_nat_alt)
  moreover have "b \<noteq> 3" using b by simp
  ultimately show ?thesis unfolding d by (simp add: row3_def)
qed

lemma row3_injective:
  assumes "valid_index [2, 3] i" "valid_index [2, 3] j" "drop 1 i \<noteq> drop 1 j"
  shows "dot i (pad_strides 1 (c_strides row3)) \<noteq> dot j (pad_strides 1 (c_strides row3))"
proof -
  from assms(1) obtain a b :: size_type where i: "i = [a, b]"
    and di: "dot i (pad_strides 1 (c_strides row3)) = b" by (rule row3_offsets)
  from assms(2) obtain a' b' :: size_type where j: "j = [a', b']"
    and dj: "dot j (pad_strides 1 (c_strides row3)) = b'" by (rule row3_offsets)
  show ?thesis unfolding di dj using assms(3) by (simp add: i j)
qed

section \<open>The odometer advances in row-major order\<close>

text \<open>
  C1. For every stepper and every index and shape of equal rank, one call of
  \<open>increment_stepper\<close> makes exactly the calls \<open>odometer_calls\<close> on the stepper, in that
  order, and leaves the index \<open>odometer_index\<close>: \<open>reset(i)\<close> on each carried dimension other
  than dimension 0, then \<open>step(i)\<close> on the dimension that did not carry, or \<open>to_end()\<close>
  exactly when every dimension down to dimension 0 carries.  From a valid position that is
  not the last one the new index is again valid and is the next one in row-major order
  (its linear position is one more); the position where every dimension carries is the last
  one of the shape.  For shape \<open>[2,3]\<close> six increments from the zero index show the indices
  (0,0), (0,1), (0,2), (1,0), (1,1), (1,2) in that order.
\<close>

theorem increment_stepper_row_major:
  assumes len: "length idx = length shp"
  shows "increment_stepper ops st idx shp =
           map_option (\<lambda>s. (s, odometer_index shp idx)) (run_calls ops (odometer_calls shp idx) st)
       \<and> (ToEnd \<in> set (odometer_calls shp idx) \<longleftrightarrow> carry_count shp idx = length idx)
       \<and> (valid_index shp idx \<and> carry_count shp idx < length idx \<longrightarrow>
            valid_index shp (odometer_index shp idx) \<and>
            ravel shp (odometer_index shp idx) = Suc (ravel shp idx))
       \<and> (valid_index shp idx \<and> carry_count shp idx = length idx \<longrightarrow>
            Suc (ravel shp idx) = extent_product shp)
       \<and> index_sequence log_ops 6 (xiterator_ctor [] [2, 3]) =
            Some [[0, 0], [0, 1], [0, 2], [1, 0], [1, 1], [1, 2]]"
proof -
  let ?n = "length idx" and ?k = "carry_count shp idx"
  have kle: "?k \<le> ?n" by (rule carry_count_le [OF len])
  have 1: "increment_stepper ops st idx shp =
           map_option (\<lambda>s. (s, odometer_index shp idx)) (run_calls ops (odometer_calls shp idx) st)"
    by (rule increment_stepper_calls [OF len])
  have 2: "ToEnd \<in> set (odometer_calls shp idx) \<longleftrightarrow> ?k = ?n"
    using kle by (auto simp: odometer_calls_def Let_def)
  have 3: "valid_index shp idx \<and> ?k < ?n \<longrightarrow>
            valid_index shp (odometer_index shp idx) \<and>
            ravel shp (odometer_index shp idx) = Suc (ravel shp idx)"
    using successor_index_row_major [of shp idx] by (simp add: odometer_index_def)
  have 4: "valid_index shp idx \<and> ?k = ?n \<longrightarrow> Suc (ravel shp idx) = extent_product shp"
    using last_index_ravel [of shp idx] by simp
  have 5: "index_sequence log_ops 6 (xiterator_ctor [] [2, 3]) =
            Some [[0, 0], [0, 1], [0, 2], [1, 0], [1, 1], [1, 2]]"
    by code_simp
  show ?thesis using 1 2 3 4 5 by simp
qed


theorem increment_stepper_row_major_witness:
  "length [0, 2 :: size_type] = length [2, 3 :: size_type]
   \<and> valid_index [2, 3] [0, 2] \<and> carry_count [2, 3] [0, 2] < length [0, 2 :: size_type]
   \<and> increment_stepper log_ops [] [0, 2] [2, 3] = Some ([Reset 1, Step 0], [1, 0])
   \<and> ravel [2, 3] [1, 0] = Suc (ravel [2, 3] [0, 2])
   \<and> valid_index [2, 3] [1, 2] \<and> carry_count [2, 3] [1, 2] = length [1, 2 :: size_type]
   \<and> increment_stepper log_ops [] [1, 2] [2, 3] = Some ([Reset 1, ToEnd], [2, 0])
   \<and> Suc (ravel [2, 3] [1, 2]) = extent_product [2, 3]"
  using increment_stepper_row_major [of "[0, 2]" "[2, 3]" log_ops "[]"]
        increment_stepper_row_major [of "[1, 2]" "[2, 3]" log_ops "[]"]
  by (simp add: odometer_calls_def odometer_index_def carry_count_def valid_index_def
        successor_index_def ravel_def extent_product_def log_ops_def)

section \<open>Length of a full traversal\<close>

text \<open>
  C2. Given enough rounds, the traversal from the begin-constructed iterator (zero index) to
  the independently end-constructed iterator dereferences exactly \<open>s0 * s1 * ... * sk-1\<close>
  times, at every rank-alignment offset, in these cases.
  Strided stepper, no zero extent: the container has the dimensions of the shape from the
  offset on with \<open>backstride[i] = stride[i] * (shape[i] - 1)\<close>, and the cursor at every
  valid index lies in the storage and is not \<open>end()\<close>.
  Strided stepper, some zero extent: the begin cursor is \<open>end()\<close> (an empty container).
  Indexed stepper, no zero extent: the expression has the rank of the shape from the offset
  on and no valid index, taken from the offset on, is the expression's shape; this is so in
  particular when the expression's shape is the shape from the offset on and has rank at
  least 1.
  Indexed stepper, some zero extent: the begin stepper equals the end stepper.
\<close>

theorem full_traversal_count:
  assumes fuel: "extent_product shp \<le> fuel"
  shows "(0 \<notin> set shp \<and> h p = Some c \<and> strided_layout c off shp \<and>
          (\<forall>i. valid_index shp i \<longrightarrow>
                 start + dot i (pad_strides off (c_strides c)) \<noteq> c_end c \<and>
                 unat (start + dot i (pad_strides off (c_strides c))) < length (c_data c)) \<longrightarrow>
          map_option length
            (traverse (xstepper_ops h) fuel (xiterator_ctor (xstepper_ctor p start off) shp)
               (xiterator_ctor (xstepper_ctor p (c_end c) off) shp)) = Some (extent_product shp))
       \<and> (0 \<in> set shp \<and> start = c_end c \<longrightarrow>
          map_option length
            (traverse (xstepper_ops h) fuel (xiterator_ctor (xstepper_ctor p start off) shp)
               (xiterator_ctor (xstepper_ctor p (c_end c) off) shp)) = Some (extent_product shp))
       \<and> (0 \<notin> set shp \<and> g q = Some e \<and> length (e_shape e) = length shp - off \<and>
          (\<forall>i. valid_index shp i \<longrightarrow> drop off i \<noteq> e_shape e) \<and>
          xindexed_stepper_ctor g q off False = Some b \<and> xindexed_stepper_ctor g q off True = Some t \<longrightarrow>
          map_option length
            (traverse (xindexed_stepper_ops g) fuel (xiterator_ctor b shp) (xiterator_ctor t shp)) =
            Some (extent_product shp))
       \<and> (off < length shp \<and> e_shape e = drop off shp \<longrightarrow>
          (\<forall>i. valid_index shp i \<longrightarrow> drop off i \<noteq> e_shape e))
       \<and> (0 \<in> set shp \<and> xindexed_stepper_equal b t \<longrightarrow>
          map_option length
            (traverse (xindexed_stepper_ops g) fuel (xiterator_ctor b shp) (xiterator_ctor t shp)) =
            Some (extent_product shp))"
proof (intro conjI impI)
  have f: "extent_product shp - ravel shp (replicate (length shp) 0) \<le> fuel"
    using fuel by (simp add: ravel_zeros)
  {
    assume a: "0 \<notin> set shp \<and> h p = Some c \<and> strided_layout c off shp \<and>
          (\<forall>i. valid_index shp i \<longrightarrow>
                 start + dot i (pad_strides off (c_strides c)) \<noteq> c_end c \<and>
                 unat (start + dot i (pad_strides off (c_strides c))) < length (c_data c))"
    then have c: "h p = Some c" and lay: "strided_layout c off shp"
      and reach: "\<forall>i. valid_index shp i \<longrightarrow>
                 start + dot i (pad_strides off (c_strides c)) \<noteq> c_end c \<and>
                 unat (start + dot i (pad_strides off (c_strides c))) < length (c_data c)"
      by blast+
    have v: "valid_index shp (replicate (length shp) 0)" using a by (auto simp: valid_index_zeros)
    show "map_option length
            (traverse (xstepper_ops h) fuel (xiterator_ctor (xstepper_ctor p start off) shp)
               (xiterator_ctor (xstepper_ctor p (c_end c) off) shp)) = Some (extent_product shp)"
      using strided_traverse [where h = h and p = p, OF c lay reach v f]
      by (auto simp: strided_begin [where c = c] ravel_zeros)
  }
  {
    assume a: "0 \<in> set shp \<and> start = c_end c"
    then have "xiterator_equal (xstepper_ops h) (xiterator_ctor (xstepper_ctor p start off) shp)
               (xiterator_ctor (xstepper_ctor p (c_end c) off) shp)"
      by (simp add: xiterator_equal_def xstepper_ops_def xstepper_equal_def)
    then show "map_option length
            (traverse (xstepper_ops h) fuel (xiterator_ctor (xstepper_ctor p start off) shp)
               (xiterator_ctor (xstepper_ctor p (c_end c) off) shp)) = Some (extent_product shp)"
      using a by (simp add: traverse_at_end extent_product_zero)
  }
  {
    assume a: "0 \<notin> set shp \<and> g q = Some e \<and> length (e_shape e) = length shp - off \<and>
          (\<forall>i. valid_index shp i \<longrightarrow> drop off i \<noteq> e_shape e) \<and>
          xindexed_stepper_ctor g q off False = Some b \<and> xindexed_stepper_ctor g q off True = Some t"
    then have e: "g q = Some e" and r: "length (e_shape e) = length shp - off"
      and apart: "\<forall>i. valid_index shp i \<longrightarrow> drop off i \<noteq> e_shape e"
      and b: "xindexed_stepper_ctor g q off False = Some b"
      and t: "xindexed_stepper_ctor g q off True = Some t"
      by blast+
    have v: "valid_index shp (replicate (length shp) 0)" using a by (auto simp: valid_index_zeros)
    show "map_option length
            (traverse (xindexed_stepper_ops g) fuel (xiterator_ctor b shp) (xiterator_ctor t shp)) =
            Some (extent_product shp)"
      using indexed_traverse [where h = g and p = q, OF e apart v f]
      by (auto simp: indexed_begin [OF e r b] indexed_end [OF e t] ravel_zeros)
  }
  {
    assume "off < length shp \<and> e_shape e = drop off shp"
    then show "\<forall>i. valid_index shp i \<longrightarrow> drop off i \<noteq> e_shape e"
      using trailing_apart [of off shp] by auto
  }
  {
    assume a: "0 \<in> set shp \<and> xindexed_stepper_equal b t"
    then have "xiterator_equal (xindexed_stepper_ops g) (xiterator_ctor b shp) (xiterator_ctor t shp)"
      by (simp add: xiterator_equal_def xindexed_stepper_ops_def xiterator_ctor_def)
    then show "map_option length
            (traverse (xindexed_stepper_ops g) fuel (xiterator_ctor b shp) (xiterator_ctor t shp)) =
            Some (extent_product shp)"
      using a by (simp add: traverse_at_end extent_product_zero)
  }
qed

theorem full_traversal_count_witness:
  "0 \<notin> set [2, 3 :: size_type] \<and> extent_product [2, 3] \<le> 6 \<and> strided_layout row3 1 [2, 3]
   \<and> map_option length
        (traverse (xstepper_ops bstore) 6 (xiterator_ctor (xstepper_ctor 1 0 1) [2, 3])
           (xiterator_ctor (xstepper_ctor 1 (c_end row3) 1) [2, 3])) = Some 6
   \<and> 0 \<in> set [0 :: size_type] \<and> (0 :: cursor) = c_end empty0
   \<and> map_option length
        (traverse (xstepper_ops bstore) 0 (xiterator_ctor (xstepper_ctor 2 0 0) [0])
           (xiterator_ctor (xstepper_ctor 2 (c_end empty0) 0) [0])) = Some 0
   \<and> length (e_shape expr3) = length [2, 3 :: size_type] - 1 \<and> e_shape expr3 = drop 1 [2, 3]
   \<and> map_option length
        (traverse (xindexed_stepper_ops bestore) 6
           (xiterator_ctor \<lparr>xi_p_e = 1, xi_m_index = [0], xi_m_offset = 1\<rparr> [2, 3])
           (xiterator_ctor \<lparr>xi_p_e = 1, xi_m_index = [3], xi_m_offset = 1\<rparr> [2, 3])) = Some 6"
proof -
  have nz: "0 \<notin> set [2, 3 :: size_type]" by simp
  have ep: "extent_product [2, 3] = 6" "extent_product [0] = 0" by (simp_all add: extent_product_def)
  have lay: "strided_layout row3 1 [2, 3]" by (simp add: strided_layout_def row3_def)
  have reach: "\<forall>i. valid_index [2, 3] i \<longrightarrow>
                 0 + dot i (pad_strides 1 (c_strides row3)) \<noteq> c_end row3 \<and>
                 unat (0 + dot i (pad_strides 1 (c_strides row3))) < length (c_data row3)"
    using row3_reach by blast
  have c: "bstore 1 = Some row3" by (simp add: bstore_def)
  have z: "(0 :: cursor) = c_end empty0" by (simp add: empty0_def)
  have e: "bestore 1 = Some expr3" "e_shape expr3 = drop 1 [2, 3]"
          "length (e_shape expr3) = length [2, 3 :: size_type] - 1"
    by (simp_all add: bestore_def expr3_def)
  have b: "xindexed_stepper_ctor bestore 1 1 False = Some \<lparr>xi_p_e = 1, xi_m_index = [0], xi_m_offset = 1\<rparr>"
    and t: "xindexed_stepper_ctor bestore 1 1 True = Some \<lparr>xi_p_e = 1, xi_m_index = [3], xi_m_offset = 1\<rparr>"
    by (simp_all add: xindexed_stepper_ctor_def xindexed_stepper_to_end_def bestore_def expr3_def)
  note S = full_traversal_count [where shp = "[2, 3]" and fuel = 6 and h = bstore and p = 1
            and c = row3 and start = 0 and off = 1 and g = bestore and q = 1 and e = expr3
            and b = "\<lparr>xi_p_e = 1, xi_m_index = [0], xi_m_offset = 1\<rparr>"
            and t = "\<lparr>xi_p_e = 1, xi_m_index = [3], xi_m_offset = 1\<rparr>"]
  note Z = full_traversal_count [where shp = "[0]" and fuel = 0 and h = bstore and p = 2
            and c = empty0 and start = 0 and off = 0]
  have 1: "map_option length
        (traverse (xstepper_ops bstore) 6 (xiterator_ctor (xstepper_ctor 1 0 1) [2, 3])
           (xiterator_ctor (xstepper_ctor 1 (c_end row3) 1) [2, 3])) = Some 6"
    using S [THEN conjunct1] nz ep(1) c lay reach by simp
  have 2: "map_option length
        (traverse (xstepper_ops bstore) 0 (xiterator_ctor (xstepper_ctor 2 0 0) [0])
           (xiterator_ctor (xstepper_ctor 2 (c_end empty0) 0) [0])) = Some 0"
    using Z [THEN conjunct2, THEN conjunct1] ep(2) z by simp
  have apart: "\<forall>i. valid_index [2, 3] i \<longrightarrow> drop 1 i \<noteq> e_shape expr3"
    using S [THEN conjunct2, THEN conjunct2, THEN conjunct2, THEN conjunct1] ep(1) e(2) by simp
  have 3: "map_option length
        (traverse (xindexed_stepper_ops bestore) 6
           (xiterator_ctor \<lparr>xi_p_e = 1, xi_m_index = [0], xi_m_offset = 1\<rparr> [2, 3])
           (xiterator_ctor \<lparr>xi_p_e = 1, xi_m_index = [3], xi_m_offset = 1\<rparr> [2, 3])) = Some 6"
    using S [THEN conjunct2, THEN conjunct2, THEN conjunct1] nz ep(1) e(1) e(3) apart b t by simp
  show ?thesis using nz ep lay z e 1 2 3 by simp
qed

theorem full_traversal_count_counterexample:
  "xindexed_stepper_ctor estore 2 0 False = Some \<lparr>xi_p_e = 2, xi_m_index = [], xi_m_offset = 0\<rparr>
   \<and> xindexed_stepper_ctor estore 2 0 True = Some \<lparr>xi_p_e = 2, xi_m_index = [], xi_m_offset = 0\<rparr>
   \<and> traverse (xindexed_stepper_ops estore) 1
        (xiterator_ctor \<lparr>xi_p_e = 2, xi_m_index = [], xi_m_offset = 0\<rparr> [])
        (xiterator_ctor \<lparr>xi_p_e = 2, xi_m_index = [], xi_m_offset = 0\<rparr> []) = Some []
   \<and> extent_product [] = 1
   \<and> xindexed_stepper_ctor estore 3 0 False = Some \<lparr>xi_p_e = 3, xi_m_index = [0, 0], xi_m_offset = 0\<rparr>
   \<and> xindexed_stepper_ctor estore 3 0 True = Some \<lparr>xi_p_e = 3, xi_m_index = [2, 0], xi_m_offset = 0\<rparr>
   \<and> \<not> xiterator_equal (xindexed_stepper_ops estore)
        (xiterator_ctor \<lparr>xi_p_e = 3, xi_m_index = [0, 0], xi_m_offset = 0\<rparr> [2, 0])
        (xiterator_ctor \<lparr>xi_p_e = 3, xi_m_index = [2, 0], xi_m_offset = 0\<rparr> [2, 0])
   \<and> extent_product [2, 0] = 0"
  by (simp add: xindexed_stepper_ctor_def xindexed_stepper_to_end_def estore_def expr_scalar_def expr20_def
        xiterator_equal_def xindexed_stepper_ops_def xindexed_stepper_equal_def extent_product_def
        xiterator_ctor_def)

section \<open>The 3 by 3 scenario\<close>

text \<open>
  C3. Over the container with strides \<open>[3,1]\<close>, backstrides \<open>[6,2]\<close> and nine elements,
  iterated with shape \<open>[3,3]\<close> and offset 0 from cursor 0: the traversal up to the
  end-constructed iterator dereferences at the cursors 0, 1, ..., 8 in that order, and
  after nine increments the iterator compares equal to the end-constructed one.
\<close>

theorem scenario_grid33:
  "map_option (map (\<lambda>it. xs_m_it (it_m_it it)))
     (traverse (xstepper_ops cstore) 9
        (xiterator_ctor (xstepper_ctor 1 0 0) [3, 3])
        (xiterator_ctor (xstepper_ctor 1 (c_end grid33) 0) [3, 3]))
   = Some [0, 1, 2, 3, 4, 5, 6, 7, 8]
   \<and> (case repeat_op 9 (xiterator_incr (xstepper_ops cstore)) (xiterator_ctor (xstepper_ctor 1 0 0) [3, 3]) of
         None \<Rightarrow> False
       | Some it \<Rightarrow> xiterator_equal (xstepper_ops cstore) it
                     (xiterator_ctor (xstepper_ctor 1 (c_end grid33) 0) [3, 3]))"
  by code_simp

section \<open>Stepping a strided stepper\<close>

text \<open>
  C4. For every strided stepper with rank-alignment offset: when \<open>dim \<ge> offset\<close> (and the
  container has a stride at \<open>dim - offset\<close>), \<open>step(dim, n)\<close> adds
  \<open>n * stride[dim - offset]\<close> to the cursor and \<open>step_back(dim, n)\<close> subtracts it, and
  \<open>reset(dim)\<close> subtracts \<open>backstride[dim - offset]\<close>; when \<open>dim < offset\<close> each of the
  three leaves the stepper entirely unchanged.
\<close>

theorem xstepper_step_step_back_reset:
  fixes s :: xstepper and dim :: nat
  shows "(xs_m_offset s \<le> dim \<and> h (xs_p_c s) = Some c \<and> dim - xs_m_offset s < length (c_strides c) \<longrightarrow>
            xstepper_step h s dim n = Some (s\<lparr>xs_m_it := xs_m_it s + n * (c_strides c ! (dim - xs_m_offset s))\<rparr>) \<and>
            xstepper_step_back h s dim n = Some (s\<lparr>xs_m_it := xs_m_it s - n * (c_strides c ! (dim - xs_m_offset s))\<rparr>))
       \<and> (xs_m_offset s \<le> dim \<and> h (xs_p_c s) = Some c \<and> dim - xs_m_offset s < length (c_backstrides c) \<longrightarrow>
            xstepper_reset h s dim = Some (s\<lparr>xs_m_it := xs_m_it s - c_backstrides c ! (dim - xs_m_offset s)\<rparr>))
       \<and> (dim < xs_m_offset s \<longrightarrow>
            xstepper_step h s dim n = Some s \<and> xstepper_step_back h s dim n = Some s \<and>
            xstepper_reset h s dim = Some s)"
  by (simp add: xstepper_step_def xstepper_step_back_def xstepper_reset_def)


theorem xstepper_step_step_back_reset_witness:
  "xstepper_step cstore \<lparr>xs_p_c = 1, xs_m_it = 4, xs_m_offset = 1\<rparr> 1 2 =
     Some \<lparr>xs_p_c = 1, xs_m_it = 10, xs_m_offset = 1\<rparr>
   \<and> xstepper_step_back cstore \<lparr>xs_p_c = 1, xs_m_it = 10, xs_m_offset = 1\<rparr> 1 2 =
     Some \<lparr>xs_p_c = 1, xs_m_it = 4, xs_m_offset = 1\<rparr>
   \<and> xstepper_reset cstore \<lparr>xs_p_c = 1, xs_m_it = 10, xs_m_offset = 1\<rparr> 1 =
     Some \<lparr>xs_p_c = 1, xs_m_it = 4, xs_m_offset = 1\<rparr>
   \<and> xstepper_step cstore \<lparr>xs_p_c = 1, xs_m_it = 4, xs_m_offset = 1\<rparr> 0 2 =
     Some \<lparr>xs_p_c = 1, xs_m_it = 4, xs_m_offset = 1\<rparr>
   \<and> xstepper_reset cstore \<lparr>xs_p_c = 1, xs_m_it = 4, xs_m_offset = 1\<rparr> 0 =
     Some \<lparr>xs_p_c = 1, xs_m_it = 4, xs_m_offset = 1\<rparr>"
  using xstepper_step_step_back_reset
          [where s = "\<lparr>xs_p_c = 1, xs_m_it = 4, xs_m_offset = 1\<rparr>" and dim = 1 and h = cstore
             and c = grid33 and n = 2]
        xstepper_step_step_back_reset
          [where s = "\<lparr>xs_p_c = 1, xs_m_it = 10, xs_m_offset = 1\<rparr>" and dim = 1 and h = cstore
             and c = grid33 and n = 2]
        xstepper_step_step_back_reset
          [where s = "\<lparr>xs_p_c = 1, xs_m_it = 4, xs_m_offset = 1\<rparr>" and dim = 0 and h = cstore
             and c = grid33 and n = 2]
  by (simp add: cstore_def grid33_def)

section \<open>Broadcasting: dimensions below the offset\<close>

text \<open>
  C5. For a strided and for an indexed stepper with offset \<open>o\<close>: \<open>step\<close> and \<open>reset\<close> on a
  dimension \<open>dim < o\<close> return the stepper unchanged, so the dereferenced value is the same
  before and after; on a dimension \<open>dim \<ge> o\<close> they do to the stepper exactly what the
  same operation on dimension \<open>dim - o\<close> does to the stepper with offset 0 over the same
  container or expression (undefined where that one is undefined).
\<close>

theorem broadcast_noop_dimensions:
  fixes s :: xstepper and x :: xindexed_stepper and dim :: nat
  shows "(dim < xs_m_offset s \<longrightarrow>
            xstepper_step h s dim n = Some s \<and> xstepper_reset h s dim = Some s \<and>
            Option.bind (xstepper_step h s dim n) (xstepper_deref h) = xstepper_deref h s \<and>
            Option.bind (xstepper_reset h s dim) (xstepper_deref h) = xstepper_deref h s)
       \<and> (dim < xi_m_offset x \<longrightarrow>
            xindexed_stepper_step x dim n = Some x \<and> xindexed_stepper_reset x dim = Some x \<and>
            Option.bind (xindexed_stepper_step x dim n) (xindexed_stepper_deref g) = xindexed_stepper_deref g x \<and>
            Option.bind (xindexed_stepper_reset x dim) (xindexed_stepper_deref g) = xindexed_stepper_deref g x)
       \<and> (xs_m_offset s \<le> dim \<longrightarrow>
            xstepper_step h s dim n =
              map_option (\<lambda>t. t\<lparr>xs_m_offset := xs_m_offset s\<rparr>)
                (xstepper_step h (s\<lparr>xs_m_offset := 0\<rparr>) (dim - xs_m_offset s) n) \<and>
            xstepper_reset h s dim =
              map_option (\<lambda>t. t\<lparr>xs_m_offset := xs_m_offset s\<rparr>)
                (xstepper_reset h (s\<lparr>xs_m_offset := 0\<rparr>) (dim - xs_m_offset s)))
       \<and> (xi_m_offset x \<le> dim \<longrightarrow>
            xindexed_stepper_step x dim n =
              map_option (\<lambda>t. t\<lparr>xi_m_offset := xi_m_offset x\<rparr>)
                (xindexed_stepper_step (x\<lparr>xi_m_offset := 0\<rparr>) (dim - xi_m_offset x) n) \<and>
            xindexed_stepper_reset x dim =
              map_option (\<lambda>t. t\<lparr>xi_m_offset := xi_m_offset x\<rparr>)
                (xindexed_stepper_reset (x\<lparr>xi_m_offset := 0\<rparr>) (dim - xi_m_offset x)))"
proof (intro conjI impI)
  assume "dim < xs_m_offset s"
  then show "xstepper_step h s dim n = Some s" "xstepper_reset h s dim = Some s"
    "Option.bind (xstepper_step h s dim n) (xstepper_deref h) = xstepper_deref h s"
    "Option.bind (xstepper_reset h s dim) (xstepper_deref h) = xstepper_deref h s"
    by (simp_all add: xstepper_step_def xstepper_reset_def)
next
  assume "dim < xi_m_offset x"
  then show "xindexed_stepper_step x dim n = Some x" "xindexed_stepper_reset x dim = Some x"
    "Option.bind (xindexed_stepper_step x dim n) (xindexed_stepper_deref g) = xindexed_stepper_deref g x"
    "Option.bind (xindexed_stepper_reset x dim) (xindexed_stepper_deref g) = xindexed_stepper_deref g x"
    by (simp_all add: xindexed_stepper_step_def xindexed_stepper_reset_def)
next
  assume "xs_m_offset s \<le> dim"
  then show "xstepper_step h s dim n =
              map_option (\<lambda>t. t\<lparr>xs_m_offset := xs_m_offset s\<rparr>)
                (xstepper_step h (s\<lparr>xs_m_offset := 0\<rparr>) (dim - xs_m_offset s) n)"
    "xstepper_reset h s dim =
              map_option (\<lambda>t. t\<lparr>xs_m_offset := xs_m_offset s\<rparr>)
                (xstepper_reset h (s\<lparr>xs_m_offset := 0\<rparr>) (dim - xs_m_offset s))"
    by (simp_all add: xstepper_step_def xstepper_reset_def split: option.splits)
next
  assume "xi_m_offset x \<le> dim"
  then show "xindexed_stepper_step x dim n =
              map_option (\<lambda>t. t\<lparr>xi_m_offset := xi_m_offset x\<rparr>)
                (xindexed_stepper_step (x\<lparr>xi_m_offset := 0\<rparr>) (dim - xi_m_offset x) n)"
    "xindexed_stepper_reset x dim =
              map_option (\<lambda>t. t\<lparr>xi_m_offset := xi_m_offset x\<rparr>)
                (xindexed_stepper_reset (x\<lparr>xi_m_offset := 0\<rparr>) (dim - xi_m_offset x))"
    by (simp_all add: xindexed_stepper_step_def xindexed_stepper_reset_def)
qed


theorem broadcast_noop_dimensions_witness:
  "xstepper_step cstore \<lparr>xs_p_c = 1, xs_m_it = 4, xs_m_offset = 1\<rparr> 0 1 =
     Some \<lparr>xs_p_c = 1, xs_m_it = 4, xs_m_offset = 1\<rparr>
   \<and> xindexed_stepper_reset \<lparr>xi_p_e = 1, xi_m_index = [1, 2], xi_m_offset = 1\<rparr> 0 =
     Some \<lparr>xi_p_e = 1, xi_m_index = [1, 2], xi_m_offset = 1\<rparr>
   \<and> xstepper_step cstore \<lparr>xs_p_c = 1, xs_m_it = 4, xs_m_offset = 1\<rparr> 2 1 =
     map_option (\<lambda>t. t\<lparr>xs_m_offset := 1\<rparr>)
       (xstepper_step cstore \<lparr>xs_p_c = 1, xs_m_it = 4, xs_m_offset = 0\<rparr> 1 1)
   \<and> xstepper_step cstore \<lparr>xs_p_c = 1, xs_m_it = 4, xs_m_offset = 1\<rparr> 2 1 =
     Some \<lparr>xs_p_c = 1, xs_m_it = 5, xs_m_offset = 1\<rparr>
   \<and> xindexed_stepper_reset \<lparr>xi_p_e = 1, xi_m_index = [1, 2], xi_m_offset = 1\<rparr> 2 =
     Some \<lparr>xi_p_e = 1, xi_m_index = [1, 0], xi_m_offset = 1\<rparr>"
  using broadcast_noop_dimensions
          [where s = "\<lparr>xs_p_c = 1, xs_m_it = 4, xs_m_offset = 1\<rparr>" and dim = 0 and h = cstore
             and n = 1 and x = "\<lparr>xi_p_e = 1, xi_m_index = [1, 2], xi_m_offset = 1\<rparr>" and g = estore]
        broadcast_noop_dimensions
          [where s = "\<lparr>xs_p_c = 1, xs_m_it = 4, xs_m_offset = 1\<rparr>" and dim = 2 and h = cstore
             and n = 1 and x = "\<lparr>xi_p_e = 1, xi_m_index = [1, 2], xi_m_offset = 1\<rparr>" and g = estore]
  by (simp add: cstore_def grid33_def xstepper_step_def xindexed_stepper_reset_def)

section \<open>Rank-0 shapes\<close>

text \<open>
  C6. For a rank-0 shape the first increment never enters the loop body: the only call on
  the stepper is \<open>to_end()\<close> and the (empty) index is unchanged.  The incremented
  iterator is the end-constructed iterator, over a strided stepper and over an indexed
  stepper alike, and compares equal to it.  Over a strided stepper whose begin cursor is a
  position of the storage other than the container's end, the traversal from the
  begin-constructed to the end-constructed iterator yields exactly one element.
\<close>

theorem rank0_first_increment:
  "increment_stepper ops st [] [] = map_option (\<lambda>s. (s, [])) (op_to_end ops st)
   \<and> increment_stepper log_ops [] [] [] = Some ([ToEnd], [])
   \<and> (h p = Some c \<longrightarrow>
        xiterator_incr (xstepper_ops h) (xiterator_ctor (xstepper_ctor p cur off) []) =
          Some (xiterator_ctor (xstepper_ctor p (c_end c) off) []) \<and>
        xiterator_equal (xstepper_ops h) (xiterator_ctor (xstepper_ctor p (c_end c) off) [])
          (xiterator_ctor (xstepper_ctor p (c_end c) off) []))
   \<and> (h p = Some c \<and> cur \<noteq> c_end c \<and> unat cur < length (c_data c) \<longrightarrow>
        traverse (xstepper_ops h) (Suc fuel) (xiterator_ctor (xstepper_ctor p cur off) [])
          (xiterator_ctor (xstepper_ctor p (c_end c) off) []) =
          Some [xiterator_ctor (xstepper_ctor p cur off) []])
   \<and> (g q = Some e \<and> e_shape e = [] \<and> xindexed_stepper_ctor g q o' False = Some b \<and>
        xindexed_stepper_ctor g q o' True = Some t \<longrightarrow>
        xiterator_incr (xindexed_stepper_ops g) (xiterator_ctor b []) = Some (xiterator_ctor t []) \<and>
        xiterator_equal (xindexed_stepper_ops g) (xiterator_ctor t []) (xiterator_ctor t []))"
proof (intro conjI impI)
  show "increment_stepper ops st [] [] = map_option (\<lambda>s. (s, [])) (op_to_end ops st)"
    by (simp add: increment_stepper_def split: option.splits)
  show "increment_stepper log_ops [] [] [] = Some ([ToEnd], [])"
    by (simp add: increment_stepper_def log_ops_def)
next
  assume c: "h p = Some c"
  show "xiterator_incr (xstepper_ops h) (xiterator_ctor (xstepper_ctor p cur off) []) =
          Some (xiterator_ctor (xstepper_ctor p (c_end c) off) [])"
    using c by (simp add: xiterator_incr_def xiterator_ctor_def xstepper_ctor_def increment_stepper_def
                  xstepper_ops_def xstepper_to_end_def)
  show "xiterator_equal (xstepper_ops h) (xiterator_ctor (xstepper_ctor p (c_end c) off) [])
          (xiterator_ctor (xstepper_ctor p (c_end c) off) [])"
    by (simp add: xiterator_equal_def xstepper_ops_def xstepper_equal_def)
next
  assume a: "h p = Some c \<and> cur \<noteq> c_end c \<and> unat cur < length (c_data c)"
  have ne: "\<not> xiterator_equal (xstepper_ops h) (xiterator_ctor (xstepper_ctor p cur off) [])
          (xiterator_ctor (xstepper_ctor p (c_end c) off) [])"
    using a by (simp add: xiterator_equal_def xstepper_ops_def xstepper_equal_def xiterator_ctor_def
                  xstepper_ctor_def)
  have d: "xiterator_deref (xstepper_ops h) (xiterator_ctor (xstepper_ctor p cur off) []) =
           Some (c_data c ! unat cur)"
    using a by (simp add: xiterator_deref_def xstepper_ops_def xstepper_deref_def xiterator_ctor_def
                  xstepper_ctor_def)
  have i: "xiterator_incr (xstepper_ops h) (xiterator_ctor (xstepper_ctor p cur off) []) =
          Some (xiterator_ctor (xstepper_ctor p (c_end c) off) [])"
    using a by (simp add: xiterator_incr_def xiterator_ctor_def xstepper_ctor_def increment_stepper_def
                  xstepper_ops_def xstepper_to_end_def)
  have e: "xiterator_equal (xstepper_ops h) (xiterator_ctor (xstepper_ctor p (c_end c) off) [])
          (xiterator_ctor (xstepper_ctor p (c_end c) off) [])"
    by (simp add: xiterator_equal_def xstepper_ops_def xstepper_equal_def)
  have t: "traverse (xstepper_ops h) fuel (xiterator_ctor (xstepper_ctor p (c_end c) off) [])
          (xiterator_ctor (xstepper_ctor p (c_end c) off) []) = Some []"
    using e by (cases fuel) simp_all
  show "traverse (xstepper_ops h) (Suc fuel) (xiterator_ctor (xstepper_ctor p cur off) [])
          (xiterator_ctor (xstepper_ctor p (c_end c) off) []) =
          Some [xiterator_ctor (xstepper_ctor p cur off) []]"
    using ne d i t by simp
next
  assume a: "g q = Some e \<and> e_shape e = [] \<and> xindexed_stepper_ctor g q o' False = Some b \<and>
        xindexed_stepper_ctor g q o' True = Some t"
  then have b: "b = \<lparr>xi_p_e = q, xi_m_index = [], xi_m_offset = o'\<rparr>"
    and t: "t = \<lparr>xi_p_e = q, xi_m_index = [], xi_m_offset = o'\<rparr>"
    by (auto simp: xindexed_stepper_ctor_def xindexed_stepper_to_end_def)
  show "xiterator_incr (xindexed_stepper_ops g) (xiterator_ctor b []) = Some (xiterator_ctor t [])"
    using a by (simp add: b t xiterator_incr_def xiterator_ctor_def increment_stepper_def
                  xindexed_stepper_ops_def xindexed_stepper_to_end_def)
  show "xiterator_equal (xindexed_stepper_ops g) (xiterator_ctor t []) (xiterator_ctor t [])"
    by (simp add: xiterator_equal_def xindexed_stepper_ops_def xindexed_stepper_equal_def)
qed

theorem rank0_first_increment_witness:
  "cstore 3 = Some scalar0 \<and> (0 :: cursor) \<noteq> c_end scalar0 \<and> unat (0 :: cursor) < length (c_data scalar0)
   \<and> xiterator_incr (xstepper_ops cstore) (xiterator_ctor (xstepper_ctor 3 0 0) []) =
       Some (xiterator_ctor (xstepper_ctor 3 1 0) [])
   \<and> traverse (xstepper_ops cstore) (Suc 0) (xiterator_ctor (xstepper_ctor 3 0 0) [])
       (xiterator_ctor (xstepper_ctor 3 1 0) []) = Some [xiterator_ctor (xstepper_ctor 3 0 0) []]
   \<and> estore 2 = Some expr_scalar \<and> e_shape expr_scalar = []
   \<and> xiterator_incr (xindexed_stepper_ops estore)
        (xiterator_ctor \<lparr>xi_p_e = 2, xi_m_index = [], xi_m_offset = 0\<rparr> []) =
       Some (xiterator_ctor \<lparr>xi_p_e = 2, xi_m_index = [], xi_m_offset = 0\<rparr> [])"
  using rank0_first_increment [where h = cstore and p = 3 and c = scalar0 and cur = 0 and off = 0
          and fuel = 0 and g = estore and q = 2 and e = expr_scalar and o' = 0
          and b = "\<lparr>xi_p_e = 2, xi_m_index = [], xi_m_offset = 0\<rparr>"
          and t = "\<lparr>xi_p_e = 2, xi_m_index = [], xi_m_offset = 0\<rparr>"
          and ops = log_ops and st = "[]"]
  by (simp add: cstore_def scalar0_def estore_def expr_scalar_def xindexed_stepper_ctor_def
        xindexed_stepper_to_end_def)

theorem rank0_indexed_counterexample:
  "xindexed_stepper_ctor estore 2 0 False = Some \<lparr>xi_p_e = 2, xi_m_index = [], xi_m_offset = 0\<rparr>
   \<and> xindexed_stepper_ctor estore 2 0 True = Some \<lparr>xi_p_e = 2, xi_m_index = [], xi_m_offset = 0\<rparr>
   \<and> xiterator_equal (xindexed_stepper_ops estore)
        (xiterator_ctor \<lparr>xi_p_e = 2, xi_m_index = [], xi_m_offset = 0\<rparr> [])
        (xiterator_ctor \<lparr>xi_p_e = 2, xi_m_index = [], xi_m_offset = 0\<rparr> [])
   \<and> traverse (xindexed_stepper_ops estore) 1
        (xiterator_ctor \<lparr>xi_p_e = 2, xi_m_index = [], xi_m_offset = 0\<rparr> [])
        (xiterator_ctor \<lparr>xi_p_e = 2, xi_m_index = [], xi_m_offset = 0\<rparr> []) = Some []"
  by (simp add: xindexed_stepper_ctor_def xindexed_stepper_to_end_def estore_def expr_scalar_def
        xiterator_equal_def xindexed_stepper_ops_def xindexed_stepper_equal_def)

section \<open>Incrementing one of two equal iterators\<close>

text \<open>
  C7. An iterator compares equal to itself.  After incrementing one of two identical
  iterators that are not at the end, at any offset, the two still compare equal (in either
  order) exactly in the following case, and compare unequal otherwise.
  Indexed stepper: the increment steps a dimension below the offset while every coordinate
  of the stepper's own index is 0 (each of the operand's dimensions is at its last
  coordinate 0 and is reset to 0).
  Strided stepper at a valid index of a container that has the dimensions of the shape from
  the offset on with \<open>backstride[i] = stride[i] * (shape[i] - 1)\<close>: the increment is a step
  and the storage offset of the new index is that of the old one; when valid indices that
  differ from the offset on have different storage offsets, this is the same case as for
  the indexed stepper.
\<close>

theorem increment_breaks_equality:
  "(g q = Some e \<and> length idx = length shp \<and> xindexed_stepper_ctor g q off True = Some t \<and>
    \<not> xiterator_equal (xindexed_stepper_ops g) (indexed_position q off shp idx) (xiterator_ctor t shp) \<longrightarrow>
      xiterator_equal (xindexed_stepper_ops g) (indexed_position q off shp idx) (indexed_position q off shp idx) \<and>
      (\<exists>a'. xiterator_incr (xindexed_stepper_ops g) (indexed_position q off shp idx) = Some a' \<and>
            (xiterator_equal (xindexed_stepper_ops g) a' (indexed_position q off shp idx) \<longleftrightarrow>
               carry_count shp idx < length idx \<and> length idx - carry_count shp idx - 1 < off \<and>
               drop off idx = replicate (length idx - off) 0) \<and>
            (xiterator_equal (xindexed_stepper_ops g) (indexed_position q off shp idx) a' \<longleftrightarrow>
               xiterator_equal (xindexed_stepper_ops g) a' (indexed_position q off shp idx))))
   \<and> (h p = Some c \<and> strided_layout c off shp \<and> valid_index shp idx \<and>
      \<not> xiterator_equal (xstepper_ops h) (strided_position p start c off shp idx)
          (xiterator_ctor (xstepper_ctor p (c_end c) off) shp) \<longrightarrow>
      xiterator_equal (xstepper_ops h) (strided_position p start c off shp idx)
        (strided_position p start c off shp idx) \<and>
      (\<exists>a'. xiterator_incr (xstepper_ops h) (strided_position p start c off shp idx) = Some a' \<and>
            (xiterator_equal (xstepper_ops h) a' (strided_position p start c off shp idx) \<longleftrightarrow>
               carry_count shp idx < length idx \<and>
               dot (successor_index shp idx) (pad_strides off (c_strides c)) =
               dot idx (pad_strides off (c_strides c))) \<and>
            (xiterator_equal (xstepper_ops h) (strided_position p start c off shp idx) a' \<longleftrightarrow>
               xiterator_equal (xstepper_ops h) a' (strided_position p start c off shp idx)) \<and>
            ((\<forall>i j. valid_index shp i \<and> valid_index shp j \<and> drop off i \<noteq> drop off j \<longrightarrow>
                     dot i (pad_strides off (c_strides c)) \<noteq> dot j (pad_strides off (c_strides c))) \<longrightarrow>
             (xiterator_equal (xstepper_ops h) a' (strided_position p start c off shp idx) \<longleftrightarrow>
                carry_count shp idx < length idx \<and> length idx - carry_count shp idx - 1 < off \<and>
                drop off idx = replicate (length idx - off) 0))))"
proof (intro conjI impI)
  assume a: "g q = Some e \<and> length idx = length shp \<and> xindexed_stepper_ctor g q off True = Some t \<and>
    \<not> xiterator_equal (xindexed_stepper_ops g) (indexed_position q off shp idx) (xiterator_ctor t shp)"
  let ?ops = "xindexed_stepper_ops g" and ?a = "indexed_position q off shp idx"
  let ?B = "carry_count shp idx < length idx \<and> length idx - carry_count shp idx - 1 < off \<and>
            drop off idx = replicate (length idx - off) 0"
  from a have e: "g q = Some e" and len: "length idx = length shp"
    and t: "xindexed_stepper_ctor g q off True = Some t"
    and ne: "\<not> xiterator_equal ?ops ?a (xiterator_ctor t shp)" by blast+
  have idx: "drop off idx \<noteq> e_shape e"
    using ne by (simp add: indexed_end [OF e t] xiterator_equal_def xindexed_stepper_ops_def
                   xindexed_stepper_equal_def indexed_position_def xiterator_ctor_def)
  show "xiterator_equal ?ops ?a ?a"
    by (simp add: xiterator_equal_def xindexed_stepper_ops_def xindexed_stepper_equal_def)
  show "\<exists>a'. xiterator_incr ?ops ?a = Some a' \<and> (xiterator_equal ?ops a' ?a \<longleftrightarrow> ?B) \<and>
             (xiterator_equal ?ops ?a a' \<longleftrightarrow> xiterator_equal ?ops a' ?a)"
  proof (cases "carry_count shp idx < length idx")
    case True
    show ?thesis
      using indexed_incr_step [where h = g and p = q and off = off, OF len True]
            drop_successor_same [OF True, of off] True
      by (auto simp: xiterator_equal_def xindexed_stepper_ops_def xindexed_stepper_equal_def
            indexed_position_def)
  next
    case False
    show ?thesis
      using indexed_incr_end [where h = g and p = q and off = off, OF len False e] idx False
      by (auto simp: xiterator_equal_def xindexed_stepper_ops_def xindexed_stepper_equal_def
            indexed_position_def)
  qed
next
  assume a: "h p = Some c \<and> strided_layout c off shp \<and> valid_index shp idx \<and>
      \<not> xiterator_equal (xstepper_ops h) (strided_position p start c off shp idx)
          (xiterator_ctor (xstepper_ctor p (c_end c) off) shp)"
  let ?ops = "xstepper_ops h" and ?a = "strided_position p start c off shp idx"
  let ?st = "pad_strides off (c_strides c)"
  let ?B = "carry_count shp idx < length idx \<and> length idx - carry_count shp idx - 1 < off \<and>
            drop off idx = replicate (length idx - off) 0"
  let ?inj = "\<forall>i j. valid_index shp i \<and> valid_index shp j \<and> drop off i \<noteq> drop off j \<longrightarrow>
                dot i ?st \<noteq> dot j ?st"
  from a have c: "h p = Some c" and lay: "strided_layout c off shp" and v: "valid_index shp idx"
    and ne: "\<not> xiterator_equal ?ops ?a (xiterator_ctor (xstepper_ctor p (c_end c) off) shp)" by blast+
  have len: "length idx = length shp" by (rule valid_index_length [OF v])
  have off: "off \<le> length idx" using lay len by (simp add: strided_layout_def)
  have cur: "start + dot idx ?st \<noteq> c_end c"
    using ne by (simp add: xiterator_equal_def xstepper_ops_def xstepper_equal_def
                   strided_position_def xiterator_ctor_def xstepper_ctor_def)
  show "xiterator_equal ?ops ?a ?a"
    by (simp add: xiterator_equal_def xstepper_ops_def xstepper_equal_def)
  show "\<exists>a'. xiterator_incr ?ops ?a = Some a' \<and>
            (xiterator_equal ?ops a' ?a \<longleftrightarrow>
               carry_count shp idx < length idx \<and> dot (successor_index shp idx) ?st = dot idx ?st) \<and>
            (xiterator_equal ?ops ?a a' \<longleftrightarrow> xiterator_equal ?ops a' ?a) \<and>
            (?inj \<longrightarrow> (xiterator_equal ?ops a' ?a \<longleftrightarrow> ?B))"
  proof (cases "carry_count shp idx < length idx")
    case True
    let ?s = "successor_index shp idx"
    have vs: "valid_index shp ?s" using successor_index_row_major [OF v True] by simp
    have ls: "length ?s = length idx" using valid_index_length [OF vs] len by simp
    have same: "drop off ?s = drop off idx \<Longrightarrow> dot ?s ?st = dot idx ?st"
      using off ls by (simp add: dot_pad)
    have "?inj \<Longrightarrow> (dot ?s ?st = dot idx ?st \<longleftrightarrow> drop off ?s = drop off idx)"
      using vs v same by blast
    then have "?inj \<Longrightarrow> (dot ?s ?st = dot idx ?st \<longleftrightarrow> ?B)"
      using drop_successor_same [OF True, of off] True by simp
    then show ?thesis
      using strided_incr_step [where h = h and p = p, OF c lay v True] True
      by (auto simp: xiterator_equal_def xstepper_ops_def xstepper_equal_def strided_position_def)
  next
    case False
    show ?thesis
      using strided_incr_end [where h = h and p = p, OF c lay len False] cur False
      by (auto simp: xiterator_equal_def xstepper_ops_def xstepper_equal_def strided_position_def)
  qed
qed

theorem increment_breaks_equality_witness:
  "xiterator_incr (xindexed_stepper_ops bestore) (indexed_position 1 1 [2, 3] [0, 2]) =
     Some (indexed_position 1 1 [2, 3] [1, 0])
   \<and> \<not> xiterator_equal (xindexed_stepper_ops bestore) (indexed_position 1 1 [2, 3] [1, 0])
         (indexed_position 1 1 [2, 3] [0, 2])
   \<and> xiterator_incr (xstepper_ops bstore) (strided_position 1 0 row3 1 [2, 3] [0, 2]) =
     Some (strided_position 1 0 row3 1 [2, 3] [1, 0])
   \<and> \<not> xiterator_equal (xstepper_ops bstore) (strided_position 1 0 row3 1 [2, 3] [1, 0])
         (strided_position 1 0 row3 1 [2, 3] [0, 2])"
proof -
  have e: "bestore 1 = Some expr3" by (simp add: bestore_def)
  have t: "xindexed_stepper_ctor bestore 1 1 True = Some \<lparr>xi_p_e = 1, xi_m_index = [3], xi_m_offset = 1\<rparr>"
    by (simp add: xindexed_stepper_ctor_def xindexed_stepper_to_end_def bestore_def expr3_def)
  have ne: "\<not> xiterator_equal (xindexed_stepper_ops bestore) (indexed_position 1 1 [2, 3] [0, 2])
              (xiterator_ctor \<lparr>xi_p_e = 1, xi_m_index = [3], xi_m_offset = 1\<rparr> [2, 3])"
    by (simp add: xiterator_equal_def xindexed_stepper_ops_def xindexed_stepper_equal_def
          indexed_position_def xiterator_ctor_def)
  have i1: "xiterator_incr (xindexed_stepper_ops bestore) (indexed_position 1 1 [2, 3] [0, 2]) =
            Some (indexed_position 1 1 [2, 3] [1, 0])"
    by code_simp
  have nb: "drop 1 [0, 2 :: size_type] \<noteq> replicate (length [0, 2 :: size_type] - 1) 0" by simp
  have c: "bstore 1 = Some row3" by (simp add: bstore_def)
  have lay: "strided_layout row3 1 [2, 3]" by (simp add: strided_layout_def row3_def)
  have v: "valid_index [2, 3] [0, 2]" by (simp add: valid_index_def)
  have inj: "\<forall>i j. valid_index [2, 3] i \<and> valid_index [2, 3] j \<and> drop 1 i \<noteq> drop 1 j \<longrightarrow>
               dot i (pad_strides 1 (c_strides row3)) \<noteq> dot j (pad_strides 1 (c_strides row3))"
    using row3_injective by blast
  have ne2: "\<not> xiterator_equal (xstepper_ops bstore) (strided_position 1 0 row3 1 [2, 3] [0, 2])
               (xiterator_ctor (xstepper_ctor 1 (c_end row3) 1) [2, 3])"
    by (simp add: xiterator_equal_def xstepper_ops_def xstepper_equal_def strided_position_def
          xiterator_ctor_def xstepper_ctor_def row3_def dot_def pad_strides_def)
  have i2: "xiterator_incr (xstepper_ops bstore) (strided_position 1 0 row3 1 [2, 3] [0, 2]) =
            Some (strided_position 1 0 row3 1 [2, 3] [1, 0])"
    by code_simp
  note ix = increment_breaks_equality [where g = bestore and q = 1 and e = expr3 and idx = "[0, 2]"
      and shp = "[2, 3]" and off = 1 and t = "\<lparr>xi_p_e = 1, xi_m_index = [3], xi_m_offset = 1\<rparr>",
      THEN conjunct1]
  note sx = increment_breaks_equality [where h = bstore and p = 1 and c = row3 and idx = "[0, 2]"
      and shp = "[2, 3]" and off = 1 and start = 0, THEN conjunct2]
  have 1: "\<not> xiterator_equal (xindexed_stepper_ops bestore) (indexed_position 1 1 [2, 3] [1, 0])
         (indexed_position 1 1 [2, 3] [0, 2])"
    using ix e t ne i1 nb by auto
  have 2: "\<not> xiterator_equal (xstepper_ops bstore) (strided_position 1 0 row3 1 [2, 3] [1, 0])
         (strided_position 1 0 row3 1 [2, 3] [0, 2])"
    using sx c lay v ne2 i2 inj nb by auto
  show ?thesis using i1 i2 1 2 by simp
qed

theorem increment_breaks_equality_counterexample:
  "xiterator_incr (xstepper_ops cstore) (xiterator_ctor (xstepper_ctor 2 0 1) [2, 1]) =
     Some \<lparr>it_shape = [2, 1], it_m_it = xstepper_ctor 2 0 1, it_m_index = [1, 0]\<rparr>
   \<and> xiterator_equal (xstepper_ops cstore)
        \<lparr>it_shape = [2, 1], it_m_it = xstepper_ctor 2 0 1, it_m_index = [1, 0]\<rparr>
        (xiterator_ctor (xstepper_ctor 2 0 1) [2, 1])
   \<and> \<not> xiterator_equal (xstepper_ops cstore) (xiterator_ctor (xstepper_ctor 2 0 1) [2, 1])
         (xiterator_ctor (xstepper_ctor 2 (c_end single1) 1) [2, 1])"
  by code_simp

section \<open>The end position of an indexed stepper\<close>

text \<open>
  C8. \<open>to_end()\<close> of an indexed stepper sets its index vector to the expression's shape.
  For an expression of rank at least 1, a stepper whose index is a valid position of that
  shape (every entry below its extent) never compares equal to a stepper moved to the end.
  For a rank-0 expression the only index is the empty one and is the shape itself: the
  begin-constructed stepper, at a valid position, equals the end-positioned one.
\<close>

theorem indexed_end_sentinel:
  assumes e: "h (xi_p_e s) = Some e"
  shows "xindexed_stepper_to_end h s = Some (s\<lparr>xi_m_index := e_shape e\<rparr>)
       \<and> (e_shape e \<noteq> [] \<and> valid_index (e_shape e) (xi_m_index u) \<longrightarrow>
            \<not> xindexed_stepper_equal u (s\<lparr>xi_m_index := e_shape e\<rparr>))"
  using e valid_index_neq_shape [of "e_shape e" "xi_m_index u"]
  by (auto simp: xindexed_stepper_to_end_def xindexed_stepper_equal_def)

theorem indexed_end_sentinel_witness:
  "estore 1 = Some expr23 \<and> e_shape expr23 \<noteq> [] \<and> valid_index (e_shape expr23) [1, 2]
   \<and> xindexed_stepper_to_end estore \<lparr>xi_p_e = 1, xi_m_index = [0, 0], xi_m_offset = 0\<rparr> =
       Some \<lparr>xi_p_e = 1, xi_m_index = [2, 3], xi_m_offset = 0\<rparr>
   \<and> \<not> xindexed_stepper_equal \<lparr>xi_p_e = 1, xi_m_index = [1, 2], xi_m_offset = 0\<rparr>
         \<lparr>xi_p_e = 1, xi_m_index = [2, 3], xi_m_offset = 0\<rparr>"
  using indexed_end_sentinel [where h = estore and e = expr23
          and s = "\<lparr>xi_p_e = 1, xi_m_index = [0, 0], xi_m_offset = 0\<rparr>"
          and u = "\<lparr>xi_p_e = 1, xi_m_index = [1, 2], xi_m_offset = 0\<rparr>"]
  by (simp add: estore_def expr23_def valid_index_def)

theorem indexed_end_counterexample:
  "xindexed_stepper_ctor estore 2 0 False = Some \<lparr>xi_p_e = 2, xi_m_index = [], xi_m_offset = 0\<rparr>
   \<and> valid_index (e_shape expr_scalar) (xi_m_index \<lparr>xi_p_e = 2, xi_m_index = [], xi_m_offset = 0\<rparr>)
   \<and> xindexed_stepper_to_end estore \<lparr>xi_p_e = 2, xi_m_index = [], xi_m_offset = 0\<rparr> =
       Some \<lparr>xi_p_e = 2, xi_m_index = [], xi_m_offset = 0\<rparr>
   \<and> xindexed_stepper_equal \<lparr>xi_p_e = 2, xi_m_index = [], xi_m_offset = 0\<rparr>
       \<lparr>xi_p_e = 2, xi_m_index = [], xi_m_offset = 0\<rparr>"
  by (simp add: xindexed_stepper_ctor_def xindexed_stepper_to_end_def xindexed_stepper_equal_def
        estore_def expr_scalar_def valid_index_def)

section \<open>Reset returns a dimension to its start\<close>

text \<open>
  C9. For a strided stepper over a container with
  \<open>backstride[i] = stride[i] * (shape[i] - 1)\<close> on the dimension \<open>i = dim - offset\<close> that
  \<open>dim\<close> addresses: taking \<open>shape[i] - 1\<close> single steps on \<open>dim\<close> and then calling
  \<open>reset(dim)\<close> gives back the stepper one started from, hence the same dereferenced
  value; and \<open>reset(dim)\<close> on any stepper \<open>t\<close> over that container and offset is the same
  as \<open>shape[i] - 1\<close> single calls of \<open>step_back\<close> on \<open>dim\<close>.
\<close>

theorem reset_undoes_dimension:
  fixes s t :: xstepper and dim :: nat
  assumes off: "xs_m_offset s \<le> dim"
      and c: "h (xs_p_c s) = Some c"
      and k: "dim - xs_m_offset s < length (c_strides c)"
             "dim - xs_m_offset s < length (c_backstrides c)"
      and bs: "c_backstrides c ! (dim - xs_m_offset s) =
               c_strides c ! (dim - xs_m_offset s) * (c_shape c ! (dim - xs_m_offset s) - 1)"
      and t: "xs_p_c t = xs_p_c s" "xs_m_offset t = xs_m_offset s"
  shows "Option.bind (repeat_op (unat (c_shape c ! (dim - xs_m_offset s) - 1)) (\<lambda>u. xstepper_step h u dim 1) s)
           (\<lambda>u. xstepper_reset h u dim) = Some s
       \<and> Option.bind (Option.bind (repeat_op (unat (c_shape c ! (dim - xs_m_offset s) - 1))
                        (\<lambda>u. xstepper_step h u dim 1) s) (\<lambda>u. xstepper_reset h u dim))
           (xstepper_deref h) = xstepper_deref h s
       \<and> xstepper_reset h t dim = repeat_op (unat (c_shape c ! (dim - xs_m_offset s) - 1))
           (\<lambda>u. xstepper_step_back h u dim 1) t"
proof -
  let ?k = "dim - xs_m_offset s"
  let ?m = "unat (c_shape c ! ?k - 1)"
  have m: "of_nat ?m = c_shape c ! ?k - 1" by simp
  have fw: "repeat_op ?m (\<lambda>t. xstepper_step h t dim 1) s =
            Some (s\<lparr>xs_m_it := xs_m_it s + of_nat ?m * (c_strides c ! ?k)\<rparr>)"
    by (rule repeat_xstepper_step) (use off c k in simp_all)
  have 1: "Option.bind (repeat_op ?m (\<lambda>t. xstepper_step h t dim 1) s) (\<lambda>t. xstepper_reset h t dim) = Some s"
    using off c k bs by (simp add: fw xstepper_reset_def m del: of_nat_unat)
  have 2: "Option.bind (Option.bind (repeat_op ?m (\<lambda>t. xstepper_step h t dim 1) s)
          (\<lambda>t. xstepper_reset h t dim)) (xstepper_deref h) = xstepper_deref h s"
    by (simp only: 1 Option.bind.simps)
  have "repeat_op ?m (\<lambda>u. xstepper_step_back h u dim 1) t =
        Some (t\<lparr>xs_m_it := xs_m_it t - of_nat ?m * (c_strides c ! (dim - xs_m_offset t))\<rparr>)"
    by (rule repeat_xstepper_step_back) (use t off c k in simp_all)
  then have 3: "xstepper_reset h t dim = repeat_op ?m (\<lambda>u. xstepper_step_back h u dim 1) t"
    using t off c k bs by (simp add: xstepper_reset_def m mult.commute del: of_nat_unat)
  from 1 2 3 show ?thesis by blast
qed

theorem reset_undoes_dimension_witness:
  "Option.bind (repeat_op 2 (\<lambda>u. xstepper_step cstore u 0 1) \<lparr>xs_p_c = 1, xs_m_it = 1, xs_m_offset = 0\<rparr>)
     (\<lambda>u. xstepper_reset cstore u 0) = Some \<lparr>xs_p_c = 1, xs_m_it = 1, xs_m_offset = 0\<rparr>
   \<and> xstepper_reset cstore \<lparr>xs_p_c = 1, xs_m_it = 7, xs_m_offset = 0\<rparr> 0 =
     repeat_op 2 (\<lambda>u. xstepper_step_back cstore u 0 1) \<lparr>xs_p_c = 1, xs_m_it = 7, xs_m_offset = 0\<rparr>
   \<and> xstepper_reset cstore \<lparr>xs_p_c = 1, xs_m_it = 7, xs_m_offset = 0\<rparr> 0 =
     Some \<lparr>xs_p_c = 1, xs_m_it = 1, xs_m_offset = 0\<rparr>"
  using reset_undoes_dimension
          [where s = "\<lparr>xs_p_c = 1, xs_m_it = 1, xs_m_offset = 0\<rparr>" and dim = 0 and h = cstore
             and c = grid33 and t = "\<lparr>xs_p_c = 1, xs_m_it = 7, xs_m_offset = 0\<rparr>"]
  by (simp add: cstore_def grid33_def xstepper_reset_def)

section \<open>Equality of iterators\<close>

text \<open>
  C10. \<open>xiterator::equal\<close> is the conjunction of the equality of the two subiterators and
  of the two shapes; the index vectors take no part in it.  Two iterators over a strided
  or an indexed stepper with the same subiterator state and the same shape therefore
  compare equal whatever their index vectors are.
\<close>

theorem xiterator_equal_ignores_index:
  "xiterator_equal ops (a\<lparr>it_m_index := i\<rparr>) (b\<lparr>it_m_index := j\<rparr>) = xiterator_equal ops a b
   \<and> xiterator_equal ops a b = (op_equal ops (it_m_it a) (it_m_it b) \<and> it_shape a = it_shape b)
   \<and> xiterator_equal (xstepper_ops h) \<lparr>it_shape = shp, it_m_it = s, it_m_index = i\<rparr>
        \<lparr>it_shape = shp, it_m_it = s, it_m_index = j\<rparr>
   \<and> xiterator_equal (xindexed_stepper_ops g) \<lparr>it_shape = shp, it_m_it = x, it_m_index = i\<rparr>
        \<lparr>it_shape = shp, it_m_it = x, it_m_index = j\<rparr>"
  by (simp add: xiterator_equal_def xstepper_ops_def xindexed_stepper_ops_def
        xstepper_equal_def xindexed_stepper_equal_def)

theorem xiterator_equal_ignores_index_witness:
  "xiterator_equal (xstepper_ops cstore)
     \<lparr>it_shape = [2, 1], it_m_it = \<lparr>xs_p_c = 2, xs_m_it = 0, xs_m_offset = 1\<rparr>, it_m_index = [0, 0]\<rparr>
     \<lparr>it_shape = [2, 1], it_m_it = \<lparr>xs_p_c = 2, xs_m_it = 0, xs_m_offset = 1\<rparr>, it_m_index = [1, 0]\<rparr>"
  by (rule xiterator_equal_ignores_index [THEN conjunct2, THEN conjunct2, THEN conjunct1])

end
